theory Spec2Isabelle
  imports Main "HOL-Library.Word" "HOL-Library.Multiset"
begin

unbundle bit_operations_syntax

section \<open>Block Bloom filter (kudu/util/block\_bloom\_filter.cc)\<close>

type_synonym u32 = "32 word"
type_synonym u64 = "64 word"

text \<open>A bucket is the array \<^verbatim>\<open>uint32_t[8]\<close>; the directory is an array of buckets.\<close>

type_synonym Bucket = "u32 list"

datatype Status = OK | InvalidArgument | RuntimeError

text \<open>The memory block behind \<^verbatim>\<open>directory_\<close>: its address and its contents.\<close>

record Buffer =
  addr :: nat
  buckets :: "Bucket list"

record BlockBloomFilter =
  always_false :: bool
  log_num_buckets :: int
  directory_mask :: u32
  directory :: "Buffer option"

text \<open>Modelled from the spec: the constants of block\_bloom\_filter.h, which is not among
  the sources. A bucket has eight 32-bit words (32 bytes), a word has 2^5 bits.\<close>

definition kBucketWords :: nat where
  "kBucketWords = 8"

definition kLogBucketWordBits :: nat where
  "kLogBucketWordBits = 5"

definition kLogBucketByteSize :: int where
  "kLogBucketByteSize = 5"

text \<open>Modelled from the spec: \<^verbatim>\<open>directory_size()\<close> of block\_bloom\_filter.h, the size of
  the directory in bytes: \<open>2^log_num_buckets\<close> buckets of 32 bytes.\<close>

definition directory_size :: "BlockBloomFilter \<Rightarrow> nat" where
  "directory_size f = 2 ^ nat (log_num_buckets f + kLogBucketByteSize)"

text \<open>The constructor: \<^verbatim>\<open>always_false_(true), log_num_buckets_(0), directory_mask_(0),
  directory_(nullptr)\<close>.\<close>

definition new_BlockBloomFilter :: BlockBloomFilter where
  "new_BlockBloomFilter =
     \<lparr>always_false = True, log_num_buckets = 0, directory_mask = 0, directory = None\<rparr>"

text \<open>\<^verbatim>\<open>Close()\<close> frees the directory if there is one.\<close>

definition Close :: "BlockBloomFilter \<Rightarrow> BlockBloomFilter" where
  "Close f = (case directory f of None \<Rightarrow> f | Some d \<Rightarrow> f\<lparr>directory := None\<rparr>)"

text \<open>\<^verbatim>\<open>DefaultBlockBloomFilterBufferAllocator::AllocateBuffer\<close>. The C library's
  \<^verbatim>\<open>posix_memalign\<close> is the parameter \<open>pm\<close>: given the alignment and the size it
  returns the address of the new block, or \<open>None\<close> for a non-zero return code. The macro
  \<^verbatim>\<open>CACHELINE_SIZE\<close> is the parameter \<open>cacheline\<close>.\<close>

definition AllocateBuffer :: "(nat \<Rightarrow> nat \<Rightarrow> nat option) \<Rightarrow> nat \<Rightarrow> nat \<Rightarrow> Status \<times> nat option" where
  "AllocateBuffer pm cacheline bytes =
     (case pm cacheline bytes of
        Some p \<Rightarrow> (OK, Some p)
      | None \<Rightarrow> (RuntimeError, None))"

text \<open>\<^verbatim>\<open>memset(directory_, 0, alloc_size)\<close>: a block of \<open>alloc_size\<close> bytes read as
  buckets of eight 32-bit words.\<close>

definition zeroed :: "nat \<Rightarrow> Bucket list" where
  "zeroed alloc_size = replicate (alloc_size div 32) (replicate kBucketWords 0)"

text \<open>\<^verbatim>\<open>Init(log_space_bytes)\<close>. The argument is a C \<^verbatim>\<open>int\<close>; the subtraction
  \<^verbatim>\<open>log_space_bytes - kLogBucketByteSize\<close> overflows below \<open>- 2^31 + 5\<close>, which is
  undefined behaviour: the model returns \<open>None\<close> there and for an argument that is no
  \<^verbatim>\<open>int\<close>.\<close>

definition Init ::
  "(nat \<Rightarrow> nat \<Rightarrow> nat option) \<Rightarrow> nat \<Rightarrow> BlockBloomFilter \<Rightarrow> int \<Rightarrow> (Status \<times> BlockBloomFilter) option" where
  "Init pm cacheline f log_space_bytes =
     (if log_space_bytes - kLogBucketByteSize < - (2 ^ 31) \<or> 2 ^ 31 \<le> log_space_bytes then None
      else
        let f1 = f\<lparr>log_num_buckets := max 1 (log_space_bytes - kLogBucketByteSize)\<rparr> in
        if log_num_buckets f1 > 32 then Some (InvalidArgument, f1)
        else
          let f2 = f1\<lparr>directory_mask := ucast (push_bit (nat (log_num_buckets f1)) (1 :: u64) - 1)\<rparr>;
              alloc_size = directory_size f2;
              f3 = Close f2
          in (case AllocateBuffer pm cacheline alloc_size of
                (st, ptr) \<Rightarrow>
                  if st \<noteq> OK then Some (st, f3)
                  else (case ptr of
                          None \<Rightarrow> None
                        | Some p \<Rightarrow>
                            Some (OK, f3\<lparr>directory := Some \<lparr>addr = p, buckets = zeroed alloc_size\<rparr>\<rparr>))))"

text \<open>The body of the loops of \<^verbatim>\<open>BucketInsert\<close> and \<^verbatim>\<open>BucketFind\<close>: the word with the
  one bit that lane \<open>i\<close> uses for \<open>hash\<close>,
  \<^verbatim>\<open>1U << ((kRehash[i] * hash) >> ((1 << kLogBucketWordBits) - kLogBucketWordBits))\<close>.
  The table \<^verbatim>\<open>kRehash\<close> of block\_bloom\_filter.h is a parameter.\<close>

definition lane_word :: "(nat \<Rightarrow> u32) \<Rightarrow> nat \<Rightarrow> u32 \<Rightarrow> u32" where
  "lane_word kRehash i hash =
     push_bit (unat (drop_bit (2 ^ kLogBucketWordBits - kLogBucketWordBits) (kRehash i * hash))) 1"

text \<open>\<^verbatim>\<open>BucketInsert\<close>: the new bucket is built word by word and ORed into the
  existing one (the two 128-bit halves of the source cover the words 0..3 and 4..7).\<close>

definition new_bucket :: "(nat \<Rightarrow> u32) \<Rightarrow> u32 \<Rightarrow> Bucket" where
  "new_bucket kRehash hash = map (\<lambda>i. lane_word kRehash i hash) [0..<kBucketWords]"

definition BucketInsert :: "(nat \<Rightarrow> u32) \<Rightarrow> Bucket list \<Rightarrow> nat \<Rightarrow> u32 \<Rightarrow> Bucket list" where
  "BucketInsert kRehash dir bucket_idx hash =
     dir[bucket_idx := map (\<lambda>i. (dir ! bucket_idx) ! i OR new_bucket kRehash hash ! i) [0..<kBucketWords]]"

text \<open>\<^verbatim>\<open>BucketFind\<close>: the loop returns false at the first lane whose bit is missing.\<close>

fun BucketFind_lanes :: "(nat \<Rightarrow> u32) \<Rightarrow> Bucket \<Rightarrow> u32 \<Rightarrow> nat list \<Rightarrow> bool" where
  "BucketFind_lanes kRehash b hash [] = True"
| "BucketFind_lanes kRehash b hash (i # is) =
     (if (b ! i) AND lane_word kRehash i hash = 0 then False
      else BucketFind_lanes kRehash b hash is)"

definition BucketFind :: "(nat \<Rightarrow> u32) \<Rightarrow> Bucket list \<Rightarrow> nat \<Rightarrow> u32 \<Rightarrow> bool" where
  "BucketFind kRehash dir bucket_idx hash =
     BucketFind_lanes kRehash (dir ! bucket_idx) hash [0..<kBucketWords]"

text \<open>\<^verbatim>\<open>Insert\<close> and \<^verbatim>\<open>Find\<close>. \<^verbatim>\<open>Rehash32to32\<close> of block\_bloom\_filter.h is the
  parameter \<open>rehash\<close>. A null directory, or a bucket index beyond the directory, is a
  crash: the result \<open>None\<close>.\<close>

definition Insert ::
  "(nat \<Rightarrow> u32) \<Rightarrow> (u32 \<Rightarrow> u32) \<Rightarrow> BlockBloomFilter \<Rightarrow> u32 \<Rightarrow> BlockBloomFilter option" where
  "Insert kRehash rehash f hash =
     (case directory f of
        None \<Rightarrow> None
      | Some d \<Rightarrow>
          let bucket_idx = unat (rehash hash AND directory_mask f) in
          if bucket_idx < length (buckets d) then
            Some (f\<lparr>always_false := False,
                    directory := Some (d\<lparr>buckets := BucketInsert kRehash (buckets d) bucket_idx hash\<rparr>)\<rparr>)
          else None)"

definition Find ::
  "(nat \<Rightarrow> u32) \<Rightarrow> (u32 \<Rightarrow> u32) \<Rightarrow> BlockBloomFilter \<Rightarrow> u32 \<Rightarrow> bool option" where
  "Find kRehash rehash f hash =
     (if always_false f then Some False
      else
        (case directory f of
           None \<Rightarrow> None
         | Some d \<Rightarrow>
             let bucket_idx = unat (rehash hash AND directory_mask f) in
             if bucket_idx < length (buckets d) then Some (BucketFind kRehash (buckets d) bucket_idx hash)
             else None))"

text \<open>A sequence of \<^verbatim>\<open>Insert\<close> calls.\<close>

fun Insert_all ::
  "(nat \<Rightarrow> u32) \<Rightarrow> (u32 \<Rightarrow> u32) \<Rightarrow> BlockBloomFilter \<Rightarrow> u32 list \<Rightarrow> BlockBloomFilter option" where
  "Insert_all kRehash rehash f [] = Some f"
| "Insert_all kRehash rehash f (h # hs) =
     (case Insert kRehash rehash f h of
        None \<Rightarrow> None
      | Some f' \<Rightarrow> Insert_all kRehash rehash f' hs)"

text \<open>The state a successful \<^verbatim>\<open>Init\<close> establishes and \<^verbatim>\<open>Insert\<close> keeps: a directory of
  \<open>2^log_num_buckets\<close> buckets of eight words and the mask \<open>2^log_num_buckets - 1\<close>.\<close>

definition initialized :: "BlockBloomFilter \<Rightarrow> bool" where
  "initialized f =
     (case directory f of
        None \<Rightarrow> False
      | Some d \<Rightarrow>
          1 \<le> log_num_buckets f \<and> log_num_buckets f \<le> 32 \<and>
          length (buckets d) = 2 ^ nat (log_num_buckets f) \<and>
          list_all (\<lambda>b. length b = kBucketWords) (buckets d) \<and>
          directory_mask f = ucast (push_bit (nat (log_num_buckets f)) (1 :: u64) - 1))"

section \<open>Column predicates (kudu/common/column\_predicate.h)\<close>

datatype PredicateType =
  NoneT | EqualityT | RangeT | IsNotNullT | IsNullT | InListT | InBloomFilterT

text \<open>Modelled from the spec: \<^verbatim>\<open>HashAlgorithm\<close> of kudu/util/hash.proto and
  \<^verbatim>\<open>ColumnSchema\<close> of kudu/common/schema.h, which are not among the sources: the supported
  algorithms, and of a column its name and its nullability flag.\<close>

datatype HashAlgorithm = CITY_HASH | FAST_HASH | MURMUR_HASH_2

record ColumnSchema =
  col_name :: string
  is_nullable :: bool

text \<open>The class \<^verbatim>\<open>BloomFilterInner\<close>.\<close>

record BloomFilterInner =
  bloom_data :: "8 word list"
  nhash :: nat
  hash_algorithm :: HashAlgorithm

text \<open>The class \<^verbatim>\<open>ColumnPredicate\<close>. The fields carry the names of their accessors. A
  value pointer is the value it points to, and \<^verbatim>\<open>nullptr\<close> is \<open>None\<close>; the type \<open>'a\<close>
  is the C++ type of the column's physical type.\<close>

record 'a ColumnPredicate =
  predicate_type :: PredicateType
  column :: ColumnSchema
  raw_lower :: "'a option"
  raw_upper :: "'a option"
  raw_values :: "'a list"
  bloom_filters :: "BloomFilterInner list"

text \<open>Modelled from the spec: \<^verbatim>\<open>DataTypeTraits<PhysicalType>::Compare\<close> of
  kudu/common/types.h, which is not among the sources: the three-way comparison of the total
  order that the physical type determines.\<close>

definition Compare :: "'a::linorder \<Rightarrow> 'a \<Rightarrow> int" where
  "Compare lhs rhs = (if lhs < rhs then - 1 else if lhs = rhs then 0 else 1)"

text \<open>\<^verbatim>\<open>std::binary_search\<close> over \<^verbatim>\<open>values_\<close> with the comparator
  \<^verbatim>\<open>Compare(lhs, rhs) < 0\<close>: the halving loop of \<^verbatim>\<open>std::lower_bound\<close> on the range
  that starts at index \<open>first\<close> and has \<open>len\<close> elements, then the test of the element
  found.\<close>

fun lower_bound :: "'a::linorder list \<Rightarrow> nat \<Rightarrow> nat \<Rightarrow> 'a \<Rightarrow> nat" where
  "lower_bound xs first len val =
     (if len = 0 then first
      else
        let half = len div 2; middle = first + half in
        if Compare (xs ! middle) val < 0 then lower_bound xs (middle + 1) (len - half - 1) val
        else lower_bound xs first half val)"

declare lower_bound.simps [simp del]

definition binary_search :: "'a::linorder list \<Rightarrow> 'a \<Rightarrow> bool" where
  "binary_search xs val =
     (let i = lower_bound xs 0 (length xs) val in
      i \<noteq> length xs \<and> \<not> Compare val (xs ! i) < 0)"

text \<open>\<^verbatim>\<open>EvaluateCellForBloomFilter\<close>. The classes \<^verbatim>\<open>BloomFilter\<close> and
  \<^verbatim>\<open>BloomKeyProbe\<close> of kudu/util/bloom\_filter.h are not among the sources: the test
  \<^verbatim>\<open>BloomFilter(bf.bloom_data(), bf.nhash()).MayContainKey(BloomKeyProbe(cell_slice,
  bf.hash_algorithm()))\<close> is the parameter \<open>MayContainKey\<close>, applied to the filter and the
  cell. The loop over the filters returns false at the first filter that fails.\<close>

fun all_filters_contain :: "(BloomFilterInner \<Rightarrow> 'a \<Rightarrow> bool) \<Rightarrow> BloomFilterInner list \<Rightarrow> 'a \<Rightarrow> bool" where
  "all_filters_contain MayContainKey [] cell = True"
| "all_filters_contain MayContainKey (bf # bfs) cell =
     (if \<not> MayContainKey bf cell then False else all_filters_contain MayContainKey bfs cell)"

definition EvaluateCellForBloomFilter ::
  "(BloomFilterInner \<Rightarrow> 'a \<Rightarrow> bool) \<Rightarrow> 'a::linorder ColumnPredicate \<Rightarrow> 'a \<Rightarrow> bool" where
  "EvaluateCellForBloomFilter MayContainKey p cell =
     (if \<not> all_filters_contain MayContainKey (bloom_filters p) cell then False
      else
        (case (raw_lower p, raw_upper p) of
           (Some l, Some u) \<Rightarrow> Compare cell u < 0 \<and> Compare cell l \<ge> 0
         | (None, Some u) \<Rightarrow> Compare cell u < 0
         | (Some l, None) \<Rightarrow> Compare cell l \<ge> 0
         | (None, None) \<Rightarrow> True))"

text \<open>\<^verbatim>\<open>EvaluateCell<PhysicalType>\<close>. A comparison with a null bound dereferences a null
  pointer: the result \<open>None\<close>.\<close>

definition EvaluateCell ::
  "(BloomFilterInner \<Rightarrow> 'a \<Rightarrow> bool) \<Rightarrow> 'a::linorder ColumnPredicate \<Rightarrow> 'a \<Rightarrow> bool option" where
  "EvaluateCell MayContainKey p cell =
     (case predicate_type p of
        NoneT \<Rightarrow> Some False
      | RangeT \<Rightarrow>
          (case raw_lower p of
             None \<Rightarrow> (case raw_upper p of None \<Rightarrow> None | Some u \<Rightarrow> Some (Compare cell u < 0))
           | Some l \<Rightarrow>
               (case raw_upper p of
                  None \<Rightarrow> Some (Compare cell l \<ge> 0)
                | Some u \<Rightarrow> Some (Compare cell u < 0 \<and> Compare cell l \<ge> 0)))
      | EqualityT \<Rightarrow> (case raw_lower p of None \<Rightarrow> None | Some l \<Rightarrow> Some (Compare cell l = 0))
      | IsNotNullT \<Rightarrow> Some True
      | IsNullT \<Rightarrow> Some False
      | InListT \<Rightarrow> Some (binary_search (raw_values p) cell)
      | InBloomFilterT \<Rightarrow> Some (EvaluateCellForBloomFilter MayContainKey p cell))"

text \<open>The canonical forms of the specification (section 3.2), which construction, merge and
  simplification establish.\<close>

definition bounds_ordered :: "'a::linorder ColumnPredicate \<Rightarrow> bool" where
  "bounds_ordered p =
     (case (raw_lower p, raw_upper p) of (Some l, Some u) \<Rightarrow> Compare l u < 0 | _ \<Rightarrow> True)"

definition canonical :: "'a::linorder ColumnPredicate \<Rightarrow> bool" where
  "canonical p =
     (case predicate_type p of
        NoneT \<Rightarrow> raw_lower p = None \<and> raw_upper p = None \<and> raw_values p = [] \<and> bloom_filters p = []
      | EqualityT \<Rightarrow> raw_lower p \<noteq> None \<and> raw_upper p = None
      | RangeT \<Rightarrow> (raw_lower p \<noteq> None \<or> raw_upper p \<noteq> None) \<and> bounds_ordered p
      | IsNotNullT \<Rightarrow> True
      | IsNullT \<Rightarrow> is_nullable (column p)
      | InListT \<Rightarrow> 2 \<le> length (raw_values p) \<and> sorted_wrt (\<lambda>a b. Compare a b < 0) (raw_values p)
      | InBloomFilterT \<Rightarrow> 1 \<le> length (bloom_filters p) \<and> bounds_ordered p)"

text \<open>What the specification (section 4.2.3) says \<^verbatim>\<open>EvaluateCell\<close> returns, kind by
  kind.\<close>

definition spec_EvaluateCell ::
  "(BloomFilterInner \<Rightarrow> 'a \<Rightarrow> bool) \<Rightarrow> 'a::linorder ColumnPredicate \<Rightarrow> 'a \<Rightarrow> bool" where
  "spec_EvaluateCell MayContainKey p cell =
     (case predicate_type p of
        NoneT \<Rightarrow> False
      | IsNullT \<Rightarrow> False
      | IsNotNullT \<Rightarrow> True
      | EqualityT \<Rightarrow> Compare cell (the (raw_lower p)) = 0
      | RangeT \<Rightarrow>
          (raw_lower p = None \<or> Compare cell (the (raw_lower p)) \<ge> 0) \<and>
          (raw_upper p = None \<or> Compare cell (the (raw_upper p)) < 0)
      | InListT \<Rightarrow> cell \<in> set (raw_values p)
      | InBloomFilterT \<Rightarrow>
          list_all (\<lambda>bf. MayContainKey bf cell) (bloom_filters p) \<and>
          (raw_lower p = None \<or> Compare cell (the (raw_lower p)) \<ge> 0) \<and>
          (raw_upper p = None \<or> Compare cell (the (raw_upper p)) < 0))"

subsection \<open>Merge and row matching, from the specification\<close>

text \<open>Modelled from the spec: the bodies of \<^verbatim>\<open>ColumnPredicate::Merge\<close>, of its helpers
  \<^verbatim>\<open>MergeIntoRange\<close>, \<^verbatim>\<open>MergeIntoEquality\<close>, \<^verbatim>\<open>MergeIntoIsNotNull\<close>,
  \<^verbatim>\<open>MergeIntoIsNull\<close>, \<^verbatim>\<open>MergeIntoInList\<close>, \<^verbatim>\<open>MergeIntoBloomFilter\<close>, of
  \<^verbatim>\<open>SetToNone\<close>, \<^verbatim>\<open>Simplify\<close> and of \<^verbatim>\<open>Evaluate\<close> are in
  kudu/common/column\_predicate.cc, which is not among the sources; column\_predicate.h only
  declares them. The definitions below follow section 4.2.2 of the specification (the table
  of merge rules, its tie-breaks and the final simplification) and section 4.2.3 (evaluation
  of a row). Where a cell of the table gives two readings (an Equality merged with an
  InBloomFilter), the rule of the paragraph on tie-breaks is taken: an Equality whose value
  fails a filter reduces to None, otherwise the result is the Equality. The table's
  "value in range", "value in list" and "passes all filters (and optional range)" are
  \<open>value_in_range\<close>, \<open>value_in_list\<close> and \<open>value_in_filters\<close>. The test for a
  singleton range depends on the physical type and is the parameter \<open>consecutive\<close>.\<close>

definition SetToNone :: "'a ColumnPredicate \<Rightarrow> 'a ColumnPredicate" where
  "SetToNone p =
     p\<lparr>predicate_type := NoneT, raw_lower := None, raw_upper := None, raw_values := [],
       bloom_filters := []\<rparr>"

definition to_Equality :: "'a ColumnPredicate \<Rightarrow> 'a \<Rightarrow> 'a ColumnPredicate" where
  "to_Equality p v =
     p\<lparr>predicate_type := EqualityT, raw_lower := Some v, raw_upper := None, raw_values := [],
       bloom_filters := []\<rparr>"

definition value_in_range :: "'a::linorder option \<Rightarrow> 'a option \<Rightarrow> 'a \<Rightarrow> bool" where
  "value_in_range lo up v =
     ((case lo of None \<Rightarrow> True | Some l \<Rightarrow> Compare v l \<ge> 0) \<and>
      (case up of None \<Rightarrow> True | Some u \<Rightarrow> Compare v u < 0))"

definition value_in_list :: "'a::linorder list \<Rightarrow> 'a \<Rightarrow> bool" where
  "value_in_list vs v = list_ex (\<lambda>w. Compare v w = 0) vs"

definition value_in_filters ::
  "(BloomFilterInner \<Rightarrow> 'a \<Rightarrow> bool) \<Rightarrow> 'a::linorder ColumnPredicate \<Rightarrow> 'a \<Rightarrow> bool" where
  "value_in_filters MayContainKey p v =
     (list_all (\<lambda>bf. MayContainKey bf v) (bloom_filters p) \<and>
      value_in_range (raw_lower p) (raw_upper p) v)"

text \<open>The intersection of two intervals \<open>[lower, upper)\<close>: the larger lower bound and the
  smaller upper bound, where a null bound is no bound.\<close>

definition larger_lower :: "'a::linorder option \<Rightarrow> 'a option \<Rightarrow> 'a option" where
  "larger_lower x y =
     (case x of
        None \<Rightarrow> y
      | Some l \<Rightarrow> (case y of None \<Rightarrow> x | Some l' \<Rightarrow> if Compare l l' < 0 then y else x))"

definition smaller_upper :: "'a::linorder option \<Rightarrow> 'a option \<Rightarrow> 'a option" where
  "smaller_upper x y =
     (case x of
        None \<Rightarrow> y
      | Some u \<Rightarrow> (case y of None \<Rightarrow> x | Some u' \<Rightarrow> if Compare u u' > 0 then y else x))"

definition intersect_bounds :: "'a::linorder ColumnPredicate \<Rightarrow> 'a ColumnPredicate \<Rightarrow> 'a ColumnPredicate" where
  "intersect_bounds p other =
     p\<lparr>raw_lower := larger_lower (raw_lower p) (raw_lower other),
       raw_upper := smaller_upper (raw_upper p) (raw_upper other)\<rparr>"

text \<open>Simplify: a range with an empty interval becomes None and a singleton range an
  Equality; an InList with no element becomes None and with one element an Equality. The
  bounds of an InBloomFilter obey the conventions of a range, so an empty interval there is
  None as well.\<close>

definition Simplify :: "('a \<Rightarrow> 'a \<Rightarrow> bool) \<Rightarrow> 'a::linorder ColumnPredicate \<Rightarrow> 'a ColumnPredicate" where
  "Simplify consecutive p =
     (case predicate_type p of
        RangeT \<Rightarrow>
          (case (raw_lower p, raw_upper p) of
             (Some l, Some u) \<Rightarrow>
               if Compare l u \<ge> 0 then SetToNone p
               else if consecutive l u then to_Equality p l
               else p
           | _ \<Rightarrow> p)
      | InListT \<Rightarrow>
          (case raw_values p of
             [] \<Rightarrow> SetToNone p
           | [v] \<Rightarrow> to_Equality p v
           | _ \<Rightarrow> p)
      | InBloomFilterT \<Rightarrow>
          (case (raw_lower p, raw_upper p) of
             (Some l, Some u) \<Rightarrow> if Compare l u \<ge> 0 then SetToNone p else p
           | _ \<Rightarrow> p)
      | _ \<Rightarrow> p)"

text \<open>An InList predicate with the given values, in place of \<open>p\<close>.\<close>

definition to_InList :: "'a ColumnPredicate \<Rightarrow> 'a list \<Rightarrow> 'a ColumnPredicate" where
  "to_InList p vs =
     p\<lparr>predicate_type := InListT, raw_lower := None, raw_upper := None, raw_values := vs,
       bloom_filters := []\<rparr>"

text \<open>The rows of the table, one function for each kind of the left predicate. The value of
  a canonical Equality is its lower bound.\<close>

definition MergeIntoIsNull :: "'a ColumnPredicate \<Rightarrow> 'a ColumnPredicate \<Rightarrow> 'a ColumnPredicate" where
  "MergeIntoIsNull p other = (if predicate_type other = IsNullT then p else SetToNone p)"

definition MergeIntoIsNotNull :: "'a ColumnPredicate \<Rightarrow> 'a ColumnPredicate \<Rightarrow> 'a ColumnPredicate" where
  "MergeIntoIsNotNull p other =
     (case predicate_type other of
        NoneT \<Rightarrow> SetToNone p
      | IsNullT \<Rightarrow> SetToNone p
      | _ \<Rightarrow> other)"

definition MergeIntoEquality ::
  "(BloomFilterInner \<Rightarrow> 'a \<Rightarrow> bool) \<Rightarrow> 'a::linorder ColumnPredicate \<Rightarrow> 'a ColumnPredicate \<Rightarrow> 'a ColumnPredicate" where
  "MergeIntoEquality MayContainKey p other =
     (let v = the (raw_lower p) in
      case predicate_type other of
        NoneT \<Rightarrow> SetToNone p
      | IsNullT \<Rightarrow> SetToNone p
      | IsNotNullT \<Rightarrow> p
      | EqualityT \<Rightarrow> if Compare v (the (raw_lower other)) = 0 then p else SetToNone p
      | RangeT \<Rightarrow> if value_in_range (raw_lower other) (raw_upper other) v then p else SetToNone p
      | InListT \<Rightarrow> if value_in_list (raw_values other) v then p else SetToNone p
      | InBloomFilterT \<Rightarrow> if value_in_filters MayContainKey other v then p else SetToNone p)"

definition MergeIntoRange ::
  "('a \<Rightarrow> 'a \<Rightarrow> bool) \<Rightarrow> 'a::linorder ColumnPredicate \<Rightarrow> 'a ColumnPredicate \<Rightarrow> 'a ColumnPredicate" where
  "MergeIntoRange consecutive p other =
     (case predicate_type other of
        NoneT \<Rightarrow> SetToNone p
      | IsNullT \<Rightarrow> SetToNone p
      | IsNotNullT \<Rightarrow> p
      | EqualityT \<Rightarrow>
          if value_in_range (raw_lower p) (raw_upper p) (the (raw_lower other))
          then to_Equality p (the (raw_lower other)) else SetToNone p
      | RangeT \<Rightarrow> Simplify consecutive (intersect_bounds p other)
      | InListT \<Rightarrow>
          Simplify consecutive
            (to_InList p (filter (value_in_range (raw_lower p) (raw_upper p)) (raw_values other)))
      | InBloomFilterT \<Rightarrow>
          Simplify consecutive
            ((intersect_bounds p other)
               \<lparr>predicate_type := InBloomFilterT, bloom_filters := bloom_filters other\<rparr>))"

definition MergeIntoInList ::
  "('a \<Rightarrow> 'a \<Rightarrow> bool) \<Rightarrow> (BloomFilterInner \<Rightarrow> 'a \<Rightarrow> bool) \<Rightarrow>
   'a::linorder ColumnPredicate \<Rightarrow> 'a ColumnPredicate \<Rightarrow> 'a ColumnPredicate" where
  "MergeIntoInList consecutive MayContainKey p other =
     (case predicate_type other of
        NoneT \<Rightarrow> SetToNone p
      | IsNullT \<Rightarrow> SetToNone p
      | IsNotNullT \<Rightarrow> p
      | EqualityT \<Rightarrow>
          if value_in_list (raw_values p) (the (raw_lower other))
          then to_Equality p (the (raw_lower other)) else SetToNone p
      | RangeT \<Rightarrow>
          Simplify consecutive
            (to_InList p (filter (value_in_range (raw_lower other) (raw_upper other)) (raw_values p)))
      | InListT \<Rightarrow>
          Simplify consecutive (to_InList p (filter (value_in_list (raw_values other)) (raw_values p)))
      | InBloomFilterT \<Rightarrow>
          Simplify consecutive (to_InList p (filter (value_in_filters MayContainKey other) (raw_values p))))"

definition MergeIntoBloomFilter ::
  "('a \<Rightarrow> 'a \<Rightarrow> bool) \<Rightarrow> (BloomFilterInner \<Rightarrow> 'a \<Rightarrow> bool) \<Rightarrow>
   'a::linorder ColumnPredicate \<Rightarrow> 'a ColumnPredicate \<Rightarrow> 'a ColumnPredicate" where
  "MergeIntoBloomFilter consecutive MayContainKey p other =
     (case predicate_type other of
        NoneT \<Rightarrow> SetToNone p
      | IsNullT \<Rightarrow> SetToNone p
      | IsNotNullT \<Rightarrow> p
      | EqualityT \<Rightarrow>
          if value_in_filters MayContainKey p (the (raw_lower other))
          then to_Equality p (the (raw_lower other)) else SetToNone p
      | RangeT \<Rightarrow> Simplify consecutive (intersect_bounds p other)
      | InListT \<Rightarrow>
          Simplify consecutive (to_InList p (filter (value_in_filters MayContainKey p) (raw_values other)))
      | InBloomFilterT \<Rightarrow>
          Simplify consecutive
            ((intersect_bounds p other)\<lparr>bloom_filters := bloom_filters p @ bloom_filters other\<rparr>))"

text \<open>\<^verbatim>\<open>Merge\<close>: the predicates must be on the same column (\<open>None\<close> otherwise); the
  result replaces the left predicate. A None predicate stays None.\<close>

definition Merge ::
  "('a \<Rightarrow> 'a \<Rightarrow> bool) \<Rightarrow> (BloomFilterInner \<Rightarrow> 'a \<Rightarrow> bool) \<Rightarrow>
   'a::linorder ColumnPredicate \<Rightarrow> 'a ColumnPredicate \<Rightarrow> 'a ColumnPredicate option" where
  "Merge consecutive MayContainKey p other =
     (if column p \<noteq> column other then None
      else Some
        (case predicate_type p of
           NoneT \<Rightarrow> p
         | RangeT \<Rightarrow> MergeIntoRange consecutive p other
         | EqualityT \<Rightarrow> MergeIntoEquality MayContainKey p other
         | IsNotNullT \<Rightarrow> MergeIntoIsNotNull p other
         | IsNullT \<Rightarrow> MergeIntoIsNull p other
         | InListT \<Rightarrow> MergeIntoInList consecutive MayContainKey p other
         | InBloomFilterT \<Rightarrow> MergeIntoBloomFilter consecutive MayContainKey p other))"

text \<open>Whether a predicate matches a row value: a null row (\<open>None\<close>) is matched by IsNull
  only; on a cell that is not null the predicate is evaluated by \<^verbatim>\<open>EvaluateCell\<close>, where
  IsNotNull is true and IsNull false.\<close>

definition matches ::
  "(BloomFilterInner \<Rightarrow> 'a \<Rightarrow> bool) \<Rightarrow> 'a::linorder ColumnPredicate \<Rightarrow> 'a option \<Rightarrow> bool option" where
  "matches MayContainKey p row =
     (case row of
        None \<Rightarrow> Some (predicate_type p = IsNullT)
      | Some cell \<Rightarrow> EvaluateCell MayContainKey p cell)"

text \<open>The parameter \<open>consecutive\<close> is sound when it holds only of bounds whose interval
  has the one value \<open>l\<close>.\<close>

definition consecutive_sound :: "('a::linorder \<Rightarrow> 'a \<Rightarrow> bool) \<Rightarrow> bool" where
  "consecutive_sound consecutive = (\<forall>l u. consecutive l u \<longrightarrow> l < u \<and> (\<forall>x. l < x \<longrightarrow> u \<le> x))"

section \<open>The block cache (kudu/util/cache.h, exercised by kudu/util/cache-test.cc)\<close>

text \<open>Modelled from the spec: the cache itself (kudu/util/cache.h and cache.cc: the classes
  \<^verbatim>\<open>Cache\<close>, its shards, handles, \<^verbatim>\<open>Insert\<close>, \<^verbatim>\<open>Lookup\<close>, \<^verbatim>\<open>Erase\<close>,
  \<^verbatim>\<open>Invalidate\<close> and the release of a handle) is not among the sources; only its test
  cache-test.cc is. Every definition of this section follows sections 3.6 and 4.3 of the
  specification.

  An entry has a key, a value and a charge (section 3.6). \<open>e_id\<close> is the identity of the
  entry (its address): a key can have a superseded entry that a handle still pins and a
  current one. \<open>e_pins\<close> counts the live handles of the entry and \<open>e_callback\<close> says
  whether an eviction callback was registered at insertion. The flag "in cache" of the
  specification is the list that holds the entry: the eviction list \<open>rl\<close> of its shard when
  it is in the cache, the list \<open>detached\<close> when it was erased or superseded while pinned.\<close>

datatype EvictionPolicy = FIFO | LRU

record ('k, 'v) Entry =
  e_id :: nat
  e_key :: 'k
  e_value :: 'v
  e_charge :: nat
  e_pins :: nat
  e_callback :: bool

text \<open>A shard (section 4.3.2): the entries of the hash table are the entries of the eviction
  list, which is kept in policy order, the head being evicted first. The usage counter is
  the sum of the charges of the entries in the cache.\<close>

record ('k, 'v) Shard =
  rl :: "('k, 'v) Entry list"
  detached :: "('k, 'v) Entry list"

definition usage :: "('k, 'v) Entry list \<Rightarrow> nat" where
  "usage es = sum_list (map e_charge es)"

text \<open>The cache (sections 4.3.1 and 6.3): the policy, the capacity, the shards, and the
  counter that gives each new entry its identity. \<open>freed\<close> lists the entries freed so far,
  in order: when an entry is freed its eviction callback, if registered, is called with the
  entry's key and value.\<close>

record ('k, 'v) Cache =
  policy :: EvictionPolicy
  capacity :: nat
  shards :: "('k, 'v) Shard list"
  next_id :: nat
  freed :: "('k, 'v) Entry list"

text \<open>A handle names an entry of a shard.\<close>

record Handle =
  h_shard :: nat
  h_entry :: nat

definition new_Cache :: "EvictionPolicy \<Rightarrow> nat \<Rightarrow> nat \<Rightarrow> ('k, 'v) Cache" where
  "new_Cache pol cap num_shards =
     \<lparr>policy = pol, capacity = cap, shards = replicate num_shards \<lparr>rl = [], detached = []\<rparr>,
      next_id = 0, freed = []\<rparr>"

text \<open>What the test's callback \<^verbatim>\<open>EvictedEntry\<close> has recorded (\<^verbatim>\<open>evicted_keys_\<close> and
  \<^verbatim>\<open>evicted_values_\<close>): key and value of every freed entry with a callback.\<close>

definition evicted :: "('k, 'v) Cache \<Rightarrow> ('k \<times> 'v) list" where
  "evicted c = map (\<lambda>e. (e_key e, e_value e)) (filter e_callback (freed c))"

text \<open>The shard of a key is \<open>hash(key) mod S\<close>; the hash function is a parameter.\<close>

definition shard_of :: "('k \<Rightarrow> nat) \<Rightarrow> ('k, 'v) Cache \<Rightarrow> 'k \<Rightarrow> nat" where
  "shard_of hash c k = hash k mod length (shards c)"

text \<open>An entry leaves the cache (it is erased, superseded or invalidated): it is taken from
  the eviction list; with no live handle it is freed at once, otherwise it stays, detached,
  until its last handle is released. The result is the shard and the entries freed.\<close>

definition remove_entry :: "('k, 'v) Entry \<Rightarrow> ('k, 'v) Entry list \<Rightarrow> ('k, 'v) Entry list" where
  "remove_entry e es = filter (\<lambda>x. e_id x \<noteq> e_id e) es"

definition detach :: "('k, 'v) Entry \<Rightarrow> ('k, 'v) Shard \<Rightarrow> ('k, 'v) Shard \<times> ('k, 'v) Entry list" where
  "detach e s =
     (if e_pins e = 0 then (s\<lparr>rl := remove_entry e (rl s)\<rparr>, [e])
      else (s\<lparr>rl := remove_entry e (rl s), detached := detached s @ [e]\<rparr>, []))"

fun detach_all :: "('k, 'v) Entry list \<Rightarrow> ('k, 'v) Shard \<Rightarrow> ('k, 'v) Shard \<times> ('k, 'v) Entry list" where
  "detach_all [] s = (s, [])"
| "detach_all (e # es) s =
     (case detach e s of (s1, f1) \<Rightarrow> (case detach_all es s1 of (s2, f2) \<Rightarrow> (s2, f1 @ f2)))"

text \<open>\<open>erase(key)\<close> on the shard of the key: the entry becomes invisible to lookups and is
  freed when the last handle drops.\<close>

definition shard_erase :: "'k \<Rightarrow> ('k, 'v) Shard \<Rightarrow> ('k, 'v) Shard \<times> ('k, 'v) Entry list" where
  "shard_erase k s =
     (case find (\<lambda>e. e_key e = k) (rl s) of
        None \<Rightarrow> (s, [])
      | Some e \<Rightarrow> detach e s)"

text \<open>\<open>lookup(key)\<close>: finds the entry and increments its pin count; under LRU the entry
  moves to the most recently used end, under FIFO it does not move.\<close>

definition pin :: "('k, 'v) Entry \<Rightarrow> ('k, 'v) Entry" where
  "pin e = e\<lparr>e_pins := e_pins e + 1\<rparr>"

definition shard_lookup ::
  "EvictionPolicy \<Rightarrow> 'k \<Rightarrow> ('k, 'v) Shard \<Rightarrow> ('k, 'v) Shard \<times> ('k, 'v) Entry option" where
  "shard_lookup pol k s =
     (case find (\<lambda>e. e_key e = k) (rl s) of
        None \<Rightarrow> (s, None)
      | Some e \<Rightarrow>
          (case pol of
             FIFO \<Rightarrow> (s\<lparr>rl := map (\<lambda>x. if e_id x = e_id e then pin x else x) (rl s)\<rparr>, Some e)
           | LRU \<Rightarrow> (s\<lparr>rl := remove_entry e (rl s) @ [pin e]\<rparr>, Some e)))"

text \<open>Eviction under capacity pressure (section 4.3.3): while the usage exceeds the capacity
  the entries are evicted from the head of the eviction list, skipping the pinned ones; if
  all the entries are pinned the usage stays above the capacity. One pass over the list:
  \<open>u\<close> is the usage that is left. The result is the entries kept and the victims.\<close>

fun evict ::
  "nat \<Rightarrow> nat \<Rightarrow> ('k, 'v) Entry list \<Rightarrow> ('k, 'v) Entry list \<times> ('k, 'v) Entry list" where
  "evict cap u [] = ([], [])"
| "evict cap u (e # es) =
     (if u \<le> cap then (e # es, [])
      else if e_pins e > 0 then (case evict cap u es of (kept, victims) \<Rightarrow> (e # kept, victims))
      else (case evict cap (u - e_charge e) es of (kept, victims) \<Rightarrow> (kept, e # victims)))"

text \<open>\<open>insert\<close> on the shard of the key: a prior entry with the same key is marked erased
  (not freed while pinned); the new entry goes to the tail of the eviction list, pinned by
  the handle that insert returns; other unpinned entries may be evicted to satisfy the
  capacity of the shard.\<close>

definition shard_insert ::
  "nat \<Rightarrow> ('k, 'v) Entry \<Rightarrow> ('k, 'v) Shard \<Rightarrow> ('k, 'v) Shard \<times> ('k, 'v) Entry list" where
  "shard_insert cap new s =
     (case shard_erase (e_key new) s of
        (s1, f1) \<Rightarrow>
          (case evict cap (usage (rl s1 @ [new])) (rl s1 @ [new]) of
             (kept, victims) \<Rightarrow> (s1\<lparr>rl := kept\<rparr>, f1 @ victims)))"

text \<open>Releasing a handle: the pin count of its entry drops; when the last handle of an entry
  that is no longer in the cache is released, the entry is freed. \<open>None\<close> when the handle
  is not live.\<close>

definition unpin :: "('k, 'v) Entry \<Rightarrow> ('k, 'v) Entry" where
  "unpin e = e\<lparr>e_pins := e_pins e - 1\<rparr>"

definition shard_release ::
  "nat \<Rightarrow> ('k, 'v) Shard \<Rightarrow> (('k, 'v) Shard \<times> ('k, 'v) Entry list) option" where
  "shard_release i s =
     (case find (\<lambda>e. e_id e = i) (rl s) of
        Some e \<Rightarrow>
          if e_pins e = 0 then None
          else Some (s\<lparr>rl := map (\<lambda>x. if e_id x = i then unpin x else x) (rl s)\<rparr>, [])
      | None \<Rightarrow>
          (case find (\<lambda>e. e_id e = i) (detached s) of
             None \<Rightarrow> None
           | Some e \<Rightarrow>
               if e_pins e = 0 then None
               else if e_pins e = 1 then
                 Some (s\<lparr>detached := remove_entry e (detached s)\<rparr>, [unpin e])
               else
                 Some (s\<lparr>detached := map (\<lambda>x. if e_id x = i then unpin x else x) (detached s)\<rparr>, [])))"

text \<open>\<open>invalidate(ctl)\<close> (section 4.3.4). The loop over the eviction list of a shard, in
  policy order, with the counts of the valid and the invalid entries seen so far:
  \<open>iteration_fn\<close> is consulted before each entry and stops the loop when it returns false;
  an entry for which \<open>validity_fn\<close> returns false is erased and counted. The result is the
  entries that stay and the entries invalidated, in the order of the visit.\<close>

record ('k, 'v) InvalidationControl =
  validity_fn :: "'k \<Rightarrow> 'v \<Rightarrow> bool"
  iteration_fn :: "nat \<Rightarrow> nat \<Rightarrow> bool"

definition default_ctl :: "('k, 'v) InvalidationControl" where
  "default_ctl = \<lparr>validity_fn = (\<lambda>k v. False), iteration_fn = (\<lambda>valid invalid. True)\<rparr>"

fun invalidate_loop ::
  "('k, 'v) InvalidationControl \<Rightarrow> nat \<Rightarrow> nat \<Rightarrow> ('k, 'v) Entry list \<Rightarrow>
   ('k, 'v) Entry list \<times> ('k, 'v) Entry list" where
  "invalidate_loop ctl valid invalid [] = ([], [])"
| "invalidate_loop ctl valid invalid (e # es) =
     (if \<not> iteration_fn ctl valid invalid then (e # es, [])
      else if validity_fn ctl (e_key e) (e_value e) then
        (case invalidate_loop ctl (valid + 1) invalid es of (stay, gone) \<Rightarrow> (e # stay, gone))
      else
        (case invalidate_loop ctl valid (invalid + 1) es of (stay, gone) \<Rightarrow> (stay, e # gone)))"

definition shard_invalidate ::
  "('k, 'v) InvalidationControl \<Rightarrow> ('k, 'v) Shard \<Rightarrow> (('k, 'v) Shard \<times> ('k, 'v) Entry list) \<times> nat" where
  "shard_invalidate ctl s =
     (case invalidate_loop ctl 0 0 (rl s) of
        (stay, gone) \<Rightarrow> (detach_all gone s, length gone))"

text \<open>The operations of the cache. Each works on the shard of its key (or of its handle) and
  appends the entries it frees to \<open>freed\<close>. The shard's share of the capacity is
  \<open>capacity / S\<close>.\<close>

definition put_shard ::
  "('k, 'v) Cache \<Rightarrow> nat \<Rightarrow> ('k, 'v) Shard \<times> ('k, 'v) Entry list \<Rightarrow> ('k, 'v) Cache" where
  "put_shard c i r = c\<lparr>shards := (shards c)[i := fst r], freed := freed c @ snd r\<rparr>"

definition Cache_Insert ::
  "('k \<Rightarrow> nat) \<Rightarrow> ('k, 'v) Cache \<Rightarrow> 'k \<Rightarrow> 'v \<Rightarrow> nat \<Rightarrow> bool \<Rightarrow> ('k, 'v) Cache \<times> Handle" where
  "Cache_Insert hash c k v charge cb =
     (let i = shard_of hash c k;
          new = \<lparr>e_id = next_id c, e_key = k, e_value = v, e_charge = charge, e_pins = 1,
                 e_callback = cb\<rparr>
      in ((put_shard c i (shard_insert (capacity c div length (shards c)) new (shards c ! i)))
            \<lparr>next_id := next_id c + 1\<rparr>,
          \<lparr>h_shard = i, h_entry = next_id c\<rparr>))"

definition Cache_Lookup ::
  "('k \<Rightarrow> nat) \<Rightarrow> ('k, 'v) Cache \<Rightarrow> 'k \<Rightarrow> ('k, 'v) Cache \<times> (Handle \<times> 'v) option" where
  "Cache_Lookup hash c k =
     (let i = shard_of hash c k in
      case shard_lookup (policy c) k (shards c ! i) of
        (s, None) \<Rightarrow> (c, None)
      | (s, Some e) \<Rightarrow> (put_shard c i (s, []), Some (\<lparr>h_shard = i, h_entry = e_id e\<rparr>, e_value e)))"

definition Cache_Erase :: "('k \<Rightarrow> nat) \<Rightarrow> ('k, 'v) Cache \<Rightarrow> 'k \<Rightarrow> ('k, 'v) Cache" where
  "Cache_Erase hash c k =
     (let i = shard_of hash c k in put_shard c i (shard_erase k (shards c ! i)))"

definition Cache_Release :: "('k, 'v) Cache \<Rightarrow> Handle \<Rightarrow> ('k, 'v) Cache option" where
  "Cache_Release c h =
     (if h_shard h < length (shards c) then
        (case shard_release (h_entry h) (shards c ! h_shard h) of
           None \<Rightarrow> None
         | Some r \<Rightarrow> Some (put_shard c (h_shard h) r))
      else None)"

text \<open>\<open>invalidate\<close> visits the shards one after the other; the counts that
  \<open>iteration_fn\<close> sees start at zero in each shard. It returns the number of invalidated
  entries.\<close>

definition Cache_Invalidate ::
  "('k, 'v) Cache \<Rightarrow> ('k, 'v) InvalidationControl \<Rightarrow> ('k, 'v) Cache \<times> nat" where
  "Cache_Invalidate c ctl =
     (let rs = map (shard_invalidate ctl) (shards c) in
      (c\<lparr>shards := map (\<lambda>r. fst (fst r)) rs, freed := freed c @ concat (map (\<lambda>r. snd (fst r)) rs)\<rparr>,
       sum_list (map snd rs)))"

text \<open>Sequences of operations on a cache. A lookup, like \<^verbatim>\<open>CacheBaseTest::Lookup\<close>, and an
  insertion, like \<^verbatim>\<open>CacheBaseTest::Insert\<close>, can keep the handle they get or release it at
  once; the test does the latter.\<close>

datatype ('k, 'v) Op =
    Op_Insert 'k 'v nat
  | Op_Lookup 'k
  | Op_Erase 'k
  | Op_Release Handle
  | Op_Invalidate "('k, 'v) InvalidationControl"

definition apply_op :: "('k \<Rightarrow> nat) \<Rightarrow> ('k, 'v) Cache \<Rightarrow> ('k, 'v) Op \<Rightarrow> ('k, 'v) Cache" where
  "apply_op hash c op =
     (case op of
        Op_Insert k v charge \<Rightarrow> fst (Cache_Insert hash c k v charge True)
      | Op_Lookup k \<Rightarrow> fst (Cache_Lookup hash c k)
      | Op_Erase k \<Rightarrow> Cache_Erase hash c k
      | Op_Release h \<Rightarrow> (case Cache_Release c h of None \<Rightarrow> c | Some c' \<Rightarrow> c')
      | Op_Invalidate ctl \<Rightarrow> fst (Cache_Invalidate c ctl))"

definition run :: "('k \<Rightarrow> nat) \<Rightarrow> ('k, 'v) Cache \<Rightarrow> ('k, 'v) Op list \<Rightarrow> ('k, 'v) Cache" where
  "run hash c ops = foldl (apply_op hash) c ops"

text \<open>The helpers of the test: \<^verbatim>\<open>Insert(key, value, charge)\<close> inserts with the callback and
  drops the handle; \<^verbatim>\<open>Lookup(key)\<close> returns the value (\<open>None\<close> for the test's -1) and
  drops the handle.\<close>

definition test_Insert :: "('k \<Rightarrow> nat) \<Rightarrow> ('k, 'v) Cache \<Rightarrow> 'k \<Rightarrow> 'v \<Rightarrow> nat \<Rightarrow> ('k, 'v) Cache" where
  "test_Insert hash c k v charge =
     (case Cache_Insert hash c k v charge True of
        (c1, h) \<Rightarrow> (case Cache_Release c1 h of None \<Rightarrow> c1 | Some c2 \<Rightarrow> c2))"

definition test_Lookup :: "('k \<Rightarrow> nat) \<Rightarrow> ('k, 'v) Cache \<Rightarrow> 'k \<Rightarrow> ('k, 'v) Cache \<times> 'v option" where
  "test_Lookup hash c k =
     (case Cache_Lookup hash c k of
        (c1, None) \<Rightarrow> (c1, None)
      | (c1, Some (h, v)) \<Rightarrow> ((case Cache_Release c1 h of None \<Rightarrow> c1 | Some c2 \<Rightarrow> c2), Some v))"

text \<open>The invariant of a cache: the shard count is positive, every entry of the cache is in
  the shard of its key, a key has at most one entry in the cache, and the identities of the
  entries held, detached and freed are distinct and were issued by the counter.\<close>

definition all_entries :: "('k, 'v) Cache \<Rightarrow> ('k, 'v) Entry list" where
  "all_entries c = concat (map (\<lambda>s. rl s @ detached s) (shards c)) @ freed c"

definition cache_inv :: "('k \<Rightarrow> nat) \<Rightarrow> ('k, 'v) Cache \<Rightarrow> bool" where
  "cache_inv hash c =
     (0 < length (shards c) \<and>
      (\<forall>i < length (shards c).
         distinct (map e_key (rl (shards c ! i))) \<and>
         (\<forall>e \<in> set (rl (shards c ! i)). shard_of hash c (e_key e) = i)) \<and>
      distinct (map e_id (all_entries c)) \<and>
      (\<forall>e \<in> set (all_entries c). e_id e < next_id c))"

text \<open>The number of entries that the invalidation loop visits before it stops, and whether
  the eviction list of every shard is in the order of insertion (the identities are issued
  in that order). Both serve to state properties of the operations.\<close>

fun visited :: "('k, 'v) InvalidationControl \<Rightarrow> nat \<Rightarrow> nat \<Rightarrow> ('k, 'v) Entry list \<Rightarrow> nat" where
  "visited ctl valid invalid [] = 0"
| "visited ctl valid invalid (e # es) =
     (if \<not> iteration_fn ctl valid invalid then 0
      else if validity_fn ctl (e_key e) (e_value e) then Suc (visited ctl (valid + 1) invalid es)
      else Suc (visited ctl valid (invalid + 1) es))"

text \<open>The number of entries that the eviction pass examines before the usage that is left
  fits the capacity; it serves to state what an insertion evicts.\<close>

fun scanned :: "nat \<Rightarrow> nat \<Rightarrow> ('k, 'v) Entry list \<Rightarrow> nat" where
  "scanned cap u [] = 0"
| "scanned cap u (e # es) =
     (if u \<le> cap then 0
      else if e_pins e > 0 then Suc (scanned cap u es)
      else Suc (scanned cap (u - e_charge e) es))"

definition insertion_ordered :: "('k, 'v) Cache \<Rightarrow> bool" where
  "insertion_ordered c = (\<forall>s \<in> set (shards c). sorted_wrt (<) (map e_id (rl s)))"

text \<open>The entries that are in memory: in the cache, or detached and held by a handle.\<close>

definition live :: "('k, 'v) Cache \<Rightarrow> ('k, 'v) Entry list" where
  "live c = concat (map (\<lambda>s. rl s @ detached s) (shards c))"



definition handles :: "Handle list \<Rightarrow> nat \<Rightarrow> nat \<Rightarrow> nat" where
  "handles H i x = count_list H \<lparr>h_shard = i, h_entry = x\<rparr>"

text \<open>The pin counts of a shard agree with the handles that are out: the pin count of every
  entry in memory is the number \<open>n\<close> of handles on it, a handle that is out names an entry
  in memory, and an entry is detached only while a handle pins it.\<close>

definition shard_ok :: "(nat \<Rightarrow> nat) \<Rightarrow> ('k, 'v) Shard \<Rightarrow> bool" where
  "shard_ok n s =
     ((\<forall>e \<in> set (rl s @ detached s). e_pins e = n (e_id e)) \<and>
      (\<forall>x. 0 < n x \<longrightarrow> x \<in> e_id ` set (rl s @ detached s)) \<and>
      (\<forall>e \<in> set (detached s). 0 < e_pins e))"

definition handles_inv :: "('k, 'v) Cache \<Rightarrow> Handle list \<Rightarrow> bool" where
  "handles_inv c H =
     ((\<forall>i < length (shards c). shard_ok (handles H i) (shards c ! i)) \<and>
      (\<forall>h \<in> set H. h_shard h < length (shards c)))"

section \<open>The block Bloom filter: proofs\<close>

subsection \<open>Facts about buckets and the directory\<close>

lemma lane_index_less: "unat (drop_bit (2 ^ kLogBucketWordBits - kLogBucketWordBits) (w :: u32)) < 32"
proof -
  have "unat w < 2 ^ 32"
    using unsigned_less [of w] by simp
  then have "unat w div 2 ^ 27 < 32"
    by (simp add: less_mult_imp_div_less)
  then show ?thesis
    by (simp add: kLogBucketWordBits_def unat_drop_bit_eq drop_bit_eq_div unat_div)
qed

lemma and_lane_word:
  "((w :: u32) AND lane_word kRehash i hash = 0) =
     (\<not> bit w (unat (drop_bit (2 ^ kLogBucketWordBits - kLogBucketWordBits) (kRehash i * hash))))"
  by (simp add: lane_word_def and_exp_eq_0_iff_not_bit)

lemma lanes_iff:
  "BucketFind_lanes kRehash b hash is = (\<forall>i \<in> set is. (b ! i) AND lane_word kRehash i hash \<noteq> 0)"
  by (induction "is") auto

lemma length_BucketInsert: "length (BucketInsert kRehash dir idx hash) = length dir"
  by (simp add: BucketInsert_def)

lemma nth_BucketInsert_same:
  "idx < length dir \<Longrightarrow> i < kBucketWords \<Longrightarrow>
     BucketInsert kRehash dir idx hash ! idx ! i = dir ! idx ! i OR lane_word kRehash i hash"
  by (simp add: BucketInsert_def new_bucket_def)

lemma BucketFind_iff:
  "BucketFind kRehash dir idx hash =
     (\<forall>i < kBucketWords. bit (dir ! idx ! i)
        (unat (drop_bit (2 ^ kLogBucketWordBits - kLogBucketWordBits) (kRehash i * hash))))"
  by (auto simp add: BucketFind_def lanes_iff and_lane_word)

lemma bit_lane_word:
  "bit (lane_word kRehash i hash) n =
     (n = unat (drop_bit (2 ^ kLogBucketWordBits - kLogBucketWordBits) (kRehash i * hash)))"
  using lane_index_less [of "kRehash i * hash"]
  by (auto simp add: lane_word_def bit_exp_iff)

lemma BucketFind_BucketInsert_same:
  "idx < length dir \<Longrightarrow> BucketFind kRehash (BucketInsert kRehash dir idx hash) idx hash"
  by (simp add: BucketFind_iff nth_BucketInsert_same bit_or_iff bit_lane_word)

lemma BucketFind_BucketInsert_mono:
  assumes "BucketFind kRehash dir j g"
  shows "BucketFind kRehash (BucketInsert kRehash dir idx hash) j g"
proof (cases "j = idx \<and> idx < length dir")
  case True
  with assms show ?thesis
    by (simp add: BucketFind_iff nth_BucketInsert_same bit_or_iff)
next
  case False
  then have "BucketInsert kRehash dir idx hash ! j = dir ! j"
    by (cases "idx < length dir") (auto simp add: BucketInsert_def list_update_beyond)
  with assms show ?thesis
    by (simp add: BucketFind_def)
qed

lemma list_all_BucketInsert:
  "list_all (\<lambda>b. length b = kBucketWords) dir \<Longrightarrow>
     list_all (\<lambda>b. length b = kBucketWords) (BucketInsert kRehash dir idx hash)"
  by (auto simp add: BucketInsert_def list_all_iff dest!: set_update_subset_insert [THEN subsetD])

lemma directory_mask_eq:
  "n \<le> 32 \<Longrightarrow> (ucast (push_bit n (1 :: u64) - 1) :: u32) = mask n"
  by (simp flip: mask_eq_exp_minus_1) (simp add: ucast_mask_eq min_def)

lemma bucket_idx_less:
  assumes "n \<le> 32"
  shows "unat ((x :: u32) AND ucast (push_bit n (1 :: u64) - 1)) < 2 ^ n"
proof -
  have "x AND ucast (push_bit n (1 :: u64) - 1) = take_bit n x"
    using assms directory_mask_eq [of n] by (simp add: take_bit_eq_mask)
  then show ?thesis
    by (simp add: unsigned_take_bit_eq)
qed

lemma initialized_Insert:
  assumes "initialized f"
  shows "\<exists>f'. Insert kRehash rehash f hash = Some f' \<and> initialized f' \<and> \<not> always_false f'"
proof -
  from assms obtain d where d: "directory f = Some d"
    and lg: "1 \<le> log_num_buckets f" "log_num_buckets f \<le> 32"
    and len: "length (buckets d) = 2 ^ nat (log_num_buckets f)"
    and bl: "list_all (\<lambda>b. length b = kBucketWords) (buckets d)"
    and mk: "directory_mask f = ucast (push_bit (nat (log_num_buckets f)) (1 :: u64) - 1)"
    by (auto simp add: initialized_def split: option.splits)
  from lg have "nat (log_num_buckets f) \<le> 32" by simp
  then have idx: "unat (rehash hash AND directory_mask f) < length (buckets d)"
    unfolding mk len by (rule bucket_idx_less)
  show ?thesis
    using d lg len mk idx list_all_BucketInsert [OF bl]
    by (simp add: Insert_def initialized_def length_BucketInsert)
qed

subsection \<open>Insert keeps what Find has found\<close>

lemma Insert_keeps_found:
  assumes "initialized f" and "Find kRehash rehash f g = Some True"
  shows "\<exists>f'. Insert kRehash rehash f hash = Some f' \<and> initialized f' \<and>
            Find kRehash rehash f' g = Some True"
proof -
  from initialized_Insert [OF assms(1)] obtain f'
    where ins: "Insert kRehash rehash f hash = Some f'" and ini: "initialized f'"
    by blast
  from assms(1) obtain d where d: "directory f = Some d"
    by (auto simp add: initialized_def split: option.splits)
  from assms(2) d have fnd: "unat (rehash g AND directory_mask f) < length (buckets d)"
      "BucketFind kRehash (buckets d) (unat (rehash g AND directory_mask f)) g"
    by (auto simp add: Find_def Let_def split: if_splits)
  from ins d have "Find kRehash rehash f' g = Some True"
    using fnd BucketFind_BucketInsert_mono [OF fnd(2)]
    by (auto simp add: Insert_def Find_def Let_def length_BucketInsert split: if_splits)
  with ins ini show ?thesis by blast
qed

lemma Insert_all_keeps_found:
  "initialized f \<Longrightarrow> Find kRehash rehash f g = Some True \<Longrightarrow>
     \<exists>f'. Insert_all kRehash rehash f hs = Some f' \<and> initialized f' \<and>
          Find kRehash rehash f' g = Some True"
proof (induction hs arbitrary: f)
  case Nil
  then show ?case by simp
next
  case (Cons h hs)
  from Insert_keeps_found [OF Cons.prems, of h] obtain f1
    where "Insert kRehash rehash f h = Some f1" "initialized f1"
      "Find kRehash rehash f1 g = Some True"
    by blast
  with Cons.IH [of f1] show ?case by simp
qed

lemma Insert_then_found:
  assumes "initialized f"
  shows "\<exists>f'. Insert kRehash rehash f hash = Some f' \<and> initialized f' \<and>
            Find kRehash rehash f' hash = Some True"
proof -
  from initialized_Insert [OF assms] obtain f'
    where ins: "Insert kRehash rehash f hash = Some f'" and ini: "initialized f'"
    by blast
  from assms obtain d where d: "directory f = Some d"
    by (auto simp add: initialized_def split: option.splits)
  from ins d have "Find kRehash rehash f' hash = Some True"
    by (auto simp add: Insert_def Find_def Let_def length_BucketInsert
        BucketFind_BucketInsert_same split: if_splits)
  with ins ini show ?thesis by blast
qed

text \<open>Claim C2. A hash inserted into an initialized filter is found, also after any
  further sequence of \<^verbatim>\<open>Insert\<close> calls: the filter has no false negatives. Both the
  inserts and the final \<^verbatim>\<open>Find\<close> return (no crash of the model).\<close>

theorem Find_true_after_Insert:
  assumes "initialized f"
  shows "\<exists>f1 f2. Insert kRehash rehash f h = Some f1 \<and>
           Insert_all kRehash rehash f1 hs = Some f2 \<and>
           Find kRehash rehash f2 h = Some True"
proof -
  from Insert_then_found [OF assms] obtain f1
    where "Insert kRehash rehash f h = Some f1" "initialized f1"
      "Find kRehash rehash f1 h = Some True"
    by blast
  with Insert_all_keeps_found [of f1 kRehash rehash h hs] show ?thesis by blast
qed

text \<open>Claim C9. \<^verbatim>\<open>Find\<close> is monotone under insertion: a hash that is found in an
  initialized filter is still found after any further sequence of \<^verbatim>\<open>Insert\<close> calls.\<close>

theorem Find_monotone_under_Insert:
  assumes "initialized f" and "Find kRehash rehash f g = Some True"
  shows "\<exists>f'. Insert_all kRehash rehash f hs = Some f' \<and> Find kRehash rehash f' g = Some True"
  using Insert_all_keeps_found [OF assms] by blast

theorem Find_monotone_under_Insert_witness:
  "initialized \<lparr>always_false = False, log_num_buckets = 1, directory_mask = 1,
       directory = Some \<lparr>addr = 64, buckets = [replicate 8 0, replicate 8 1]\<rparr>\<rparr> \<and>
   Find (\<lambda>i. 2 * of_nat i + 1) (\<lambda>h. h)
       \<lparr>always_false = False, log_num_buckets = 1, directory_mask = 1,
        directory = Some \<lparr>addr = 64, buckets = [replicate 8 0, replicate 8 1]\<rparr>\<rparr> 7 = Some True \<and>
   (\<exists>f'. Insert_all (\<lambda>i. 2 * of_nat i + 1) (\<lambda>h. h)
       \<lparr>always_false = False, log_num_buckets = 1, directory_mask = 1,
        directory = Some \<lparr>addr = 64, buckets = [replicate 8 0, replicate 8 1]\<rparr>\<rparr>
       [4294967295, 12, 3] = Some f' \<and>
      Find (\<lambda>i. 2 * of_nat i + 1) (\<lambda>h. h) f' 7 = Some True)"
proof -
  let ?f = "\<lparr>always_false = False, log_num_buckets = 1, directory_mask = 1,
       directory = Some \<lparr>addr = 64, buckets = [replicate 8 0, replicate 8 (1 :: u32)]\<rparr>\<rparr>"
  have ini: "initialized ?f"
    by (simp add: initialized_def kBucketWords_def)
  have fnd: "Find (\<lambda>i. 2 * of_nat i + 1) (\<lambda>h. h) ?f 7 = Some True"
    by (simp add: Find_def BucketFind_def kBucketWords_def lane_word_def kLogBucketWordBits_def
        upt_rec [of _ "numeral _"] drop_bit_eq_div)
  show ?thesis
    using ini fnd Find_monotone_under_Insert [OF ini fnd, of "[4294967295, 12, 3]"]
    by simp
qed

subsection \<open>Init\<close>

lemma Init_initialized:
  assumes "Init pm cacheline f l = Some (OK, f')"
  shows "initialized f'"
  using assms
  by (auto simp add: Init_def Let_def AllocateBuffer_def Close_def initialized_def directory_size_def
      zeroed_def kLogBucketByteSize_def kBucketWords_def list_all_iff nat_add_distrib power_add
      split: if_splits option.splits)

subsection \<open>Witnesses for the Bloom filter claims, and the claims about Find and Init\<close>

theorem Find_true_after_Insert_witness:
  "initialized \<lparr>always_false = True, log_num_buckets = 1, directory_mask = 1,
       directory = Some \<lparr>addr = 64, buckets = [replicate 8 0, replicate 8 0]\<rparr>\<rparr> \<and>
   (\<exists>f1 f2. Insert (\<lambda>i. 2 * of_nat i + 1) (\<lambda>h. h)
        \<lparr>always_false = True, log_num_buckets = 1, directory_mask = 1,
         directory = Some \<lparr>addr = 64, buckets = [replicate 8 0, replicate 8 0]\<rparr>\<rparr> 7 = Some f1 \<and>
      Insert_all (\<lambda>i. 2 * of_nat i + 1) (\<lambda>h. h) f1 [1, 2] = Some f2 \<and>
      Find (\<lambda>i. 2 * of_nat i + 1) (\<lambda>h. h) f2 7 = Some True)"
proof -
  have ini: "initialized \<lparr>always_false = True, log_num_buckets = 1, directory_mask = 1,
       directory = Some \<lparr>addr = 64, buckets = [replicate 8 0, replicate 8 0]\<rparr>\<rparr>"
    by (simp add: initialized_def kBucketWords_def)
  show ?thesis
    using ini Find_true_after_Insert [OF ini, of "\<lambda>i. 2 * of_nat i + 1" "\<lambda>h. h" 7 "[1, 2]"]
    by simp
qed

text \<open>Claim C4. \<^verbatim>\<open>Find\<close> returns false whenever \<open>always_false\<close> is set; the
  constructor sets it, \<^verbatim>\<open>Init\<close> keeps it and only \<^verbatim>\<open>Insert\<close> clears it, so a filter with
  no insert finds nothing. Otherwise, on an initialized filter, \<^verbatim>\<open>Find\<close> returns true iff
  in the bucket \<open>rehash h AND (num_buckets - 1)\<close> each of the eight lanes has the lane's bit
  \<open>(kRehash[i] * h) >> 27\<close> set.\<close>

theorem Find_semantics:
  "(always_false f \<longrightarrow> Find kRehash rehash f h = Some False) \<and>
   always_false new_BlockBloomFilter \<and>
   (\<forall>pm cacheline l st f'. Init pm cacheline f l = Some (st, f') \<longrightarrow> always_false f' = always_false f) \<and>
   (\<forall>f'. Insert kRehash rehash f h = Some f' \<longrightarrow> \<not> always_false f') \<and>
   (\<forall>d. initialized f \<and> \<not> always_false f \<and> directory f = Some d \<longrightarrow>
      Find kRehash rehash f h =
        Some (\<forall>i < 8. bit (buckets d ! unat (rehash h AND (2 ^ nat (log_num_buckets f) - 1)) ! i)
                        (unat (drop_bit 27 (kRehash i * h)))))"
proof (intro conjI allI impI)
  assume "always_false f"
  then show "Find kRehash rehash f h = Some False"
    by (simp add: Find_def)
next
  show "always_false new_BlockBloomFilter"
    by (simp add: new_BlockBloomFilter_def)
next
  fix pm cacheline l st f'
  assume "Init pm cacheline f l = Some (st, f')"
  then show "always_false f' = always_false f"
    by (auto simp add: Init_def Let_def Close_def split: if_splits option.splits prod.splits)
next
  fix f'
  assume "Insert kRehash rehash f h = Some f'"
  then show "\<not> always_false f'"
    by (auto simp add: Insert_def Let_def split: if_splits option.splits)
next
  fix d
  assume a: "initialized f \<and> \<not> always_false f \<and> directory f = Some d"
  then have lg: "nat (log_num_buckets f) \<le> 32"
    and len: "length (buckets d) = 2 ^ nat (log_num_buckets f)"
    and mk: "directory_mask f = ucast (push_bit (nat (log_num_buckets f)) (1 :: u64) - 1)"
    by (auto simp add: initialized_def)
  have mk': "directory_mask f = 2 ^ nat (log_num_buckets f) - 1"
    unfolding mk using directory_mask_eq [OF lg] by (simp add: mask_eq_exp_minus_1)
  have idx: "unat (rehash h AND directory_mask f) < length (buckets d)"
    unfolding mk len using lg by (rule bucket_idx_less)
  show "Find kRehash rehash f h =
        Some (\<forall>i < 8. bit (buckets d ! unat (rehash h AND (2 ^ nat (log_num_buckets f) - 1)) ! i)
                        (unat (drop_bit 27 (kRehash i * h))))"
    using a idx
    by (simp add: Find_def BucketFind_iff kBucketWords_def kLogBucketWordBits_def flip: mk')
qed

theorem Find_semantics_witness:
  "Find (\<lambda>i. 2 * of_nat i + 1) (\<lambda>h. h)
      \<lparr>always_false = False, log_num_buckets = 1, directory_mask = 1,
       directory = Some \<lparr>addr = 64, buckets = [replicate 8 0, replicate 8 1]\<rparr>\<rparr> 7 = Some True \<and>
   Find (\<lambda>i. 2 * of_nat i + 1) (\<lambda>h. h)
      \<lparr>always_false = False, log_num_buckets = 1, directory_mask = 1,
       directory = Some \<lparr>addr = 64, buckets = [replicate 8 0, replicate 8 1]\<rparr>\<rparr> 6 = Some False \<and>
   Find (\<lambda>i. 2 * of_nat i + 1) (\<lambda>h. h) new_BlockBloomFilter 7 = Some False"
proof -
  let ?f = "\<lparr>always_false = False, log_num_buckets = 1, directory_mask = 1,
       directory = Some \<lparr>addr = 64, buckets = [replicate 8 0, replicate 8 (1 :: u32)]\<rparr>\<rparr>"
  have ini: "initialized ?f"
    by (simp add: initialized_def kBucketWords_def)
  have all8: "\<And>P. (\<forall>i<8::nat. P i) = (P 0 \<and> P 1 \<and> P 2 \<and> P 3 \<and> P 4 \<and> P 5 \<and> P 6 \<and> P 7)"
    by (simp add: eval_nat_numeral All_less_Suc2)
  show ?thesis
    using ini
      Find_semantics [of ?f "\<lambda>i. 2 * of_nat i + 1" "\<lambda>h. h" 7]
      Find_semantics [of ?f "\<lambda>i. 2 * of_nat i + 1" "\<lambda>h. h" 6]
      Find_semantics [of new_BlockBloomFilter "\<lambda>i. 2 * of_nat i + 1" "\<lambda>h. h" 7]
    by (simp add: all8 drop_bit_eq_div)
qed

lemma Init_overflow:
  "l < - (2 ^ 31) + 5 \<Longrightarrow> Init pm cacheline f l = None"
  by (simp add: Init_def kLogBucketByteSize_def)

lemma Init_InvalidArgument_allocates_nothing:
  "Init pm cacheline f l = Some (InvalidArgument, f') \<Longrightarrow> directory f' = directory f"
  by (auto simp add: Init_def Let_def AllocateBuffer_def split: if_splits option.splits)

text \<open>Claim C5. The argument is a C \<^verbatim>\<open>int\<close> and the subtraction
  \<^verbatim>\<open>log_space_bytes - kLogBucketByteSize\<close> is defined for \<open>- 2^31 + 5 \<le> log_space_bytes\<close>.
  For every such argument \<^verbatim>\<open>Init\<close>, called on a filter fresh from the constructor, returns;
  it sets \<open>log_num_buckets = max 1 (log_space_bytes - 5)\<close> and returns \<open>InvalidArgument\<close>
  exactly when that exceeds 32, and then no directory is allocated. Otherwise, when the
  aligned allocation fails the result is \<open>RuntimeError\<close> and there is no directory; when it
  succeeds the result is \<open>OK\<close> and the directory is the block that \<^verbatim>\<open>posix_memalign\<close>
  returned for the alignment \<^verbatim>\<open>CACHELINE_SIZE\<close> and the size \<open>2^log_num_buckets * 32\<close>,
  all zero. \<^verbatim>\<open>posix_memalign\<close> returns a multiple of the alignment it is given, and
  \<^verbatim>\<open>CACHELINE_SIZE\<close> is a multiple of 32: then so is the address of the directory.\<close>

theorem Init_outcome:
  assumes "- (2 ^ 31) + 5 \<le> l" and "l < 2 ^ 31"
    and "\<And>n p. pm cacheline n = Some p \<Longrightarrow> cacheline dvd p" and "32 dvd cacheline"
  shows "\<exists>st f'. Init pm cacheline new_BlockBloomFilter l = Some (st, f') \<and>
      log_num_buckets f' = max 1 (l - 5) \<and>
      (st = InvalidArgument \<longleftrightarrow> 32 < log_num_buckets f') \<and>
      (st = InvalidArgument \<longrightarrow> directory f' = None) \<and>
      (log_num_buckets f' \<le> 32 \<longrightarrow>
         (case pm cacheline (2 ^ nat (log_num_buckets f') * 32) of
            None \<Rightarrow> st = RuntimeError \<and> directory f' = None
          | Some p \<Rightarrow> st = OK \<and> 32 dvd p \<and>
              directory f' =
                Some \<lparr>addr = p, buckets = replicate (2 ^ nat (log_num_buckets f')) (replicate 8 0)\<rparr>))"
proof (cases "32 < max 1 (l - 5)")
  case True
  then have "37 < l" and "max 1 (l - 5) = l - 5"
    by auto
  with assms(1,2) show ?thesis
    by (simp add: Init_def Let_def kLogBucketByteSize_def new_BlockBloomFilter_def)
next
  case False
  have sz: "directory_size (f\<lparr>log_num_buckets := max 1 (l - 5), directory_mask := m\<rparr>)
      = 2 ^ nat (max 1 (l - 5)) * 32" for m f
    by (simp add: directory_size_def kLogBucketByteSize_def nat_add_distrib power_add)
  show ?thesis
  proof (cases "pm cacheline (2 ^ nat (max 1 (l - 5)) * 32)")
    case None
    with False assms(1,2) show ?thesis
      by (simp add: Init_def Let_def kLogBucketByteSize_def sz AllocateBuffer_def Close_def
          split: option.splits)
  next
    case (Some p)
    from assms(3) [OF Some] assms(4) have "32 dvd p"
      by (rule dvd_trans [rotated])
    with Some False assms(1,2) show ?thesis
      by (simp add: Init_def Let_def kLogBucketByteSize_def sz AllocateBuffer_def Close_def
          zeroed_def kBucketWords_def split: option.splits)
  qed
qed

theorem Init_outcome_witness:
  "Init (\<lambda>a n. Some (3 * a)) 64 new_BlockBloomFilter 6 =
      Some (OK, \<lparr>always_false = True, log_num_buckets = 1, directory_mask = 1,
                 directory = Some \<lparr>addr = 192, buckets = replicate 2 (replicate 8 0)\<rparr>\<rparr>) \<and>
   (\<exists>f'. Init (\<lambda>a n. Some (3 * a)) 64 new_BlockBloomFilter 40 = Some (InvalidArgument, f') \<and>
      log_num_buckets f' = 35 \<and> directory f' = None) \<and>
   (\<exists>f'. Init (\<lambda>a n. None) 64 new_BlockBloomFilter 6 = Some (RuntimeError, f') \<and>
      log_num_buckets f' = 1 \<and> directory f' = None)"
proof -
  have a: "- (2 ^ 31) + 5 \<le> (6 :: int)" "(6 :: int) < 2 ^ 31" "(32 :: nat) dvd 64"
    "- (2 ^ 31) + 5 \<le> (40 :: int)" "(40 :: int) < 2 ^ 31"
    by simp_all
  have b: "\<And>n p. (\<lambda>a n. Some (3 * a)) (64 :: nat) (n :: nat) = Some p \<Longrightarrow> 64 dvd p"
    by auto
  have c: "\<And>n p. (\<lambda>a n. None) (64 :: nat) (n :: nat) = Some (p :: nat) \<Longrightarrow> 64 dvd p"
    by simp
  have 1: "Init (\<lambda>a n. Some (3 * a)) 64 new_BlockBloomFilter 6 =
      Some (OK, \<lparr>always_false = True, log_num_buckets = 1, directory_mask = 1,
                 directory = Some \<lparr>addr = 192, buckets = replicate 2 (replicate 8 0)\<rparr>\<rparr>)"
    by (simp add: Init_def Let_def kLogBucketByteSize_def new_BlockBloomFilter_def
        directory_size_def AllocateBuffer_def Close_def zeroed_def kBucketWords_def)
  have 2: "\<exists>f'. Init (\<lambda>a n. Some (3 * a)) 64 new_BlockBloomFilter 40 = Some (InvalidArgument, f') \<and>
      log_num_buckets f' = 35 \<and> directory f' = None"
    using Init_outcome [of 40 "\<lambda>a n. Some (3 * a)" 64, OF a(4) a(5) b a(3)]
    by auto
  have 3: "\<exists>f'. Init (\<lambda>a n. None) 64 new_BlockBloomFilter 6 = Some (RuntimeError, f') \<and>
      log_num_buckets f' = 1 \<and> directory f' = None"
    using Init_outcome [of 6 "\<lambda>a n. None" 64, OF a(1) a(2) c a(3)]
    by auto
  from 1 2 3 show ?thesis by blast
qed

section \<open>Column predicates: proofs\<close>

subsection \<open>Comparison and binary search\<close>

lemma Compare_less [simp]: "(Compare a b < 0) = (a < b)"
  by (simp add: Compare_def)

lemma Compare_ge [simp]: "(Compare a b \<ge> 0) = (b \<le> a)"
  by (auto simp add: Compare_def)

lemma Compare_eq [simp]: "(Compare a b = 0) = (a = b)"
  by (auto simp add: Compare_def)

lemma sorted_nth_le:
  "sorted_wrt (<) xs \<Longrightarrow> i \<le> j \<Longrightarrow> j < length xs \<Longrightarrow> xs ! i \<le> (xs ! j :: 'a::linorder)"
  by (cases "i = j") (auto simp add: sorted_wrt_iff_nth_less less_imp_le)

lemma lower_bound_correct:
  "sorted_wrt (<) xs \<Longrightarrow> first + len \<le> length xs \<Longrightarrow>
   (\<forall>i < first. xs ! i < val) \<Longrightarrow> (\<forall>i. first + len \<le> i \<and> i < length xs \<longrightarrow> val \<le> xs ! i) \<Longrightarrow>
   first \<le> lower_bound xs first len val \<and> lower_bound xs first len val \<le> first + len \<and>
   (\<forall>i < lower_bound xs first len val. xs ! i < val) \<and>
   (\<forall>i. lower_bound xs first len val \<le> i \<and> i < length xs \<longrightarrow> val \<le> xs ! i)"
proof (induction xs first len val rule: lower_bound.induct)
  case (1 xs first len val)
  show ?case
  proof (cases "len = 0")
    case True
    then have "lower_bound xs first len val = first"
      by (subst lower_bound.simps) simp
    with True "1.prems" show ?thesis by simp
  next
    case False
    define half where "half = len div 2"
    define middle where "middle = first + half"
    have hl: "half < len" using False by (simp add: half_def)
    have ml: "middle < length xs" using hl "1.prems"(2) by (simp add: middle_def)
    show ?thesis
    proof (cases "xs ! middle < val")
      case True
      have b: "middle + 1 + (len - half - 1) = first + len"
        using hl by (simp add: middle_def)
      have "middle + 1 \<le> lower_bound xs (middle + 1) (len - half - 1) val \<and>
        lower_bound xs (middle + 1) (len - half - 1) val \<le> middle + 1 + (len - half - 1) \<and>
        (\<forall>i < lower_bound xs (middle + 1) (len - half - 1) val. xs ! i < val) \<and>
        (\<forall>i. lower_bound xs (middle + 1) (len - half - 1) val \<le> i \<and> i < length xs \<longrightarrow> val \<le> xs ! i)"
      proof (rule "1.IH"(1) [OF False half_def middle_def])
        show "Compare (xs ! middle) val < 0" using True by simp
        show "sorted_wrt (<) xs" by fact
        show "middle + 1 + (len - half - 1) \<le> length xs"
          unfolding b by fact
        show "\<forall>i<middle + 1. xs ! i < val"
        proof (intro allI impI)
          fix i assume "i < middle + 1"
          then have "i \<le> middle" by simp
          with "1.prems"(1) have "xs ! i \<le> xs ! middle"
            using ml by (rule sorted_nth_le)
          with True show "xs ! i < val" by simp
        qed
        show "\<forall>i. middle + 1 + (len - half - 1) \<le> i \<and> i < length xs \<longrightarrow> val \<le> xs ! i"
          unfolding b by fact
      qed
      moreover have "lower_bound xs first len val = lower_bound xs (middle + 1) (len - half - 1) val"
        using False True by (subst lower_bound.simps) (simp add: Let_def half_def middle_def)
      ultimately show ?thesis unfolding b by (simp add: middle_def)
    next
      case nl: False
      have "first \<le> lower_bound xs first half val \<and>
        lower_bound xs first half val \<le> first + half \<and>
        (\<forall>i < lower_bound xs first half val. xs ! i < val) \<and>
        (\<forall>i. lower_bound xs first half val \<le> i \<and> i < length xs \<longrightarrow> val \<le> xs ! i)"
      proof (rule "1.IH"(2) [OF False half_def middle_def])
        show "\<not> Compare (xs ! middle) val < 0" using nl by simp
        show "sorted_wrt (<) xs" by fact
        show "first + half \<le> length xs"
          using ml by (simp add: middle_def)
        show "\<forall>i<first. xs ! i < val" by fact
        show "\<forall>i. first + half \<le> i \<and> i < length xs \<longrightarrow> val \<le> xs ! i"
        proof (intro allI impI)
          fix i assume a: "first + half \<le> i \<and> i < length xs"
          then have "middle \<le> i" "i < length xs" by (simp_all add: middle_def)
          with "1.prems"(1) have "xs ! middle \<le> xs ! i"
            by (rule sorted_nth_le)
          with nl show "val \<le> xs ! i" by simp
        qed
      qed
      moreover have "lower_bound xs first len val = lower_bound xs first half val"
        using False nl by (subst lower_bound.simps) (simp add: Let_def half_def middle_def)
      ultimately show ?thesis using hl by simp
    qed
  qed
qed

lemma binary_search_iff:
  assumes "sorted_wrt (<) xs"
  shows "binary_search xs val = (val \<in> set xs)"
proof -
  define r where "r = lower_bound xs 0 (length xs) val"
  have "0 \<le> r \<and> r \<le> 0 + length xs \<and> (\<forall>i < r. xs ! i < val) \<and>
      (\<forall>i. r \<le> i \<and> i < length xs \<longrightarrow> val \<le> xs ! i)"
    unfolding r_def by (rule lower_bound_correct) (use assms in auto)
  then have r: "r \<le> length xs" "\<forall>i < r. xs ! i < val" "\<forall>i. r \<le> i \<and> i < length xs \<longrightarrow> val \<le> xs ! i"
    by simp_all
  have bs: "binary_search xs val = (r \<noteq> length xs \<and> xs ! r \<le> val)"
    by (simp add: binary_search_def Let_def r_def not_less)
  show ?thesis
  proof
    assume "binary_search xs val"
    then have "r \<noteq> length xs" "xs ! r \<le> val"
      by (simp_all add: bs)
    with r have "r < length xs" "xs ! r = val"
      by (auto simp add: antisym)
    then show "val \<in> set xs"
      by (metis nth_mem)
  next
    assume "val \<in> set xs"
    then obtain j where j: "j < length xs" "xs ! j = val"
      by (auto simp add: in_set_conv_nth)
    with r(2) have "r \<le> j"
      by (metis less_irrefl not_le)
    with j r(3) have "r < length xs" "val \<le> xs ! r"
      by auto
    moreover from \<open>r \<le> j\<close> j assms have "xs ! r \<le> val"
      using sorted_nth_le by blast
    ultimately show "binary_search xs val"
      unfolding bs by blast
  qed
qed

subsection \<open>Evaluation of a cell\<close>

lemma all_filters_contain_iff:
  "all_filters_contain MayContainKey bfs cell = list_all (\<lambda>bf. MayContainKey bf cell) bfs"
  by (induction bfs) auto

lemma EvaluateCell_canonical:
  assumes "canonical p"
  shows "EvaluateCell MayContainKey p cell = Some (spec_EvaluateCell MayContainKey p cell)"
proof (cases "predicate_type p")
  case InListT
  with assms have "sorted_wrt (<) (raw_values p)"
    by (simp add: canonical_def)
  then show ?thesis
    using InListT by (simp add: EvaluateCell_def spec_EvaluateCell_def binary_search_iff)
next
  case InBloomFilterT
  then show ?thesis
    by (auto simp add: EvaluateCell_def spec_EvaluateCell_def EvaluateCellForBloomFilter_def
        all_filters_contain_iff split: option.splits)
qed (use assms in \<open>auto simp add: EvaluateCell_def spec_EvaluateCell_def canonical_def
        split: option.splits\<close>)

text \<open>Claim C3. On a canonical predicate \<^verbatim>\<open>EvaluateCell\<close> returns, for every cell, what
  the specification says kind by kind (\<open>spec_EvaluateCell\<close>): false for None and IsNull,
  true for IsNotNull, equality with the lower bound for Equality, the bounds that are not
  null for Range, membership in the list of values for InList (the binary search), and for
  InBloomFilter that every filter may contain the cell and the bounds that are not null
  hold.\<close>

theorem EvaluateCell_semantics:
  assumes "canonical p"
  shows "EvaluateCell MayContainKey p cell = Some (spec_EvaluateCell MayContainKey p cell)"
  using assms by (rule EvaluateCell_canonical)

theorem EvaluateCell_semantics_witness:
  "canonical \<lparr>predicate_type = InListT, column = \<lparr>col_name = ''c'', is_nullable = False\<rparr>,
       raw_lower = None, raw_upper = None, raw_values = [1, 3, 5, 7, 9 :: int], bloom_filters = []\<rparr> \<and>
   EvaluateCell (\<lambda>bf c. True)
     \<lparr>predicate_type = InListT, column = \<lparr>col_name = ''c'', is_nullable = False\<rparr>,
       raw_lower = None, raw_upper = None, raw_values = [1, 3, 5, 7, 9 :: int], bloom_filters = []\<rparr> 7
     = Some True \<and>
   EvaluateCell (\<lambda>bf c. True)
     \<lparr>predicate_type = InListT, column = \<lparr>col_name = ''c'', is_nullable = False\<rparr>,
       raw_lower = None, raw_upper = None, raw_values = [1, 3, 5, 7, 9 :: int], bloom_filters = []\<rparr> 8
     = Some False"
proof -
  let ?p = "\<lparr>predicate_type = InListT, column = \<lparr>col_name = ''c'', is_nullable = False\<rparr>,
       raw_lower = None, raw_upper = None, raw_values = [1, 3, 5, 7, 9 :: int], bloom_filters = []\<rparr>"
  have c: "canonical ?p"
    by (simp add: canonical_def)
  show ?thesis
    using c EvaluateCell_semantics [OF c, of "\<lambda>bf c. True" 7]
      EvaluateCell_semantics [OF c, of "\<lambda>bf c. True" 8]
    by (simp add: spec_EvaluateCell_def)
qed

subsection \<open>The specification's merge: ranges, lists and simplification\<close>

lemma Compare_gt [simp]: "(0 < Compare a b) = (b < a)"
  by (auto simp add: Compare_def)

lemma value_in_range_iff:
  "value_in_range lo up v = ((lo = None \<or> the lo \<le> v) \<and> (up = None \<or> v < the up))"
  by (cases lo; cases up) (simp_all add: value_in_range_def)

lemma value_in_list_iff: "value_in_list vs v = (v \<in> set vs)"
  by (auto simp add: value_in_list_def list_ex_iff)

lemma value_in_range_intersect:
  "value_in_range (larger_lower l l') (smaller_upper u u') v =
     (value_in_range l u v \<and> value_in_range l' u' v)"
  by (cases l; cases l'; cases u; cases u')
    (auto simp add: value_in_range_def larger_lower_def smaller_upper_def)

lemma spec_SetToNone [simp]: "spec_EvaluateCell mc (SetToNone p) c = False"
  by (simp add: spec_EvaluateCell_def SetToNone_def)

lemma spec_to_Equality [simp]: "spec_EvaluateCell mc (to_Equality p v) c = (c = v)"
  by (simp add: spec_EvaluateCell_def to_Equality_def)

lemma spec_to_InList [simp]: "spec_EvaluateCell mc (to_InList p vs) c = (c \<in> set vs)"
  by (simp add: spec_EvaluateCell_def to_InList_def)

lemma canonical_SetToNone [simp]: "canonical (SetToNone p)"
  by (simp add: canonical_def SetToNone_def)

lemma canonical_to_Equality [simp]: "canonical (to_Equality p v)"
  by (simp add: canonical_def to_Equality_def)

lemma type_SetToNone [simp]: "predicate_type (SetToNone p) = NoneT"
  by (simp add: SetToNone_def)

lemma type_to_Equality [simp]: "predicate_type (to_Equality p v) = EqualityT"
  by (simp add: to_Equality_def)

lemma type_to_InList [simp]: "predicate_type (to_InList p vs) = InListT"
  by (simp add: to_InList_def)

lemma spec_Range:
  "predicate_type p = RangeT \<Longrightarrow>
     spec_EvaluateCell mc p c = value_in_range (raw_lower p) (raw_upper p) c"
  by (simp add: spec_EvaluateCell_def value_in_range_iff)

lemma spec_InBloomFilter:
  "predicate_type p = InBloomFilterT \<Longrightarrow> spec_EvaluateCell mc p c = value_in_filters mc p c"
  by (simp add: spec_EvaluateCell_def value_in_filters_def value_in_range_iff)

lemma spec_InList:
  "predicate_type p = InListT \<Longrightarrow> spec_EvaluateCell mc p c = (c \<in> set (raw_values p))"
  by (simp add: spec_EvaluateCell_def)

lemma spec_Equality:
  "predicate_type p = EqualityT \<Longrightarrow> spec_EvaluateCell mc p c = (c = the (raw_lower p))"
  by (simp add: spec_EvaluateCell_def)

lemma consecutive_singleton:
  assumes "consecutive_sound consecutive" and "consecutive l u"
  shows "value_in_range (Some l) (Some u) c = (c = l)"
proof -
  from assms have "l < u" and "\<And>x. l < x \<Longrightarrow> u \<le> x"
    by (auto simp add: consecutive_sound_def)
  then show ?thesis
    by (auto simp add: value_in_range_def) (metis not_less order.not_eq_order_implies_strict)
qed

lemma spec_Simplify:
  assumes "consecutive_sound consecutive"
  shows "spec_EvaluateCell mc (Simplify consecutive p) c = spec_EvaluateCell mc p c"
proof (cases "predicate_type p")
  case RangeT
  show ?thesis
  proof (cases "raw_lower p")
    case None
    with RangeT show ?thesis by (simp add: Simplify_def)
  next
    case l: (Some l)
    show ?thesis
    proof (cases "raw_upper p")
      case None
      with RangeT l show ?thesis by (simp add: Simplify_def)
    next
      case u: (Some u)
      show ?thesis
        using RangeT l u consecutive_singleton [OF assms, of l u c]
        by (auto simp add: Simplify_def spec_Range value_in_range_def)
    qed
  qed
next
  case InListT
  then show ?thesis
    by (auto simp add: Simplify_def spec_InList split: list.splits)
next
  case InBloomFilterT
  then show ?thesis
    by (auto simp add: Simplify_def spec_InBloomFilter value_in_filters_def value_in_range_def
        split: option.splits)
qed (simp_all add: Simplify_def)

lemma type_Simplify_IsNull:
  "(predicate_type (Simplify consecutive p) = IsNullT) = (predicate_type p = IsNullT)"
  by (cases "predicate_type p")
    (auto simp add: Simplify_def split: option.splits list.splits)

lemma canonical_Simplify_Range:
  assumes "predicate_type p = RangeT" and "raw_lower p \<noteq> None \<or> raw_upper p \<noteq> None"
  shows "canonical (Simplify consecutive p)"
proof (cases "raw_lower p")
  case None
  with assms show ?thesis
    by (simp add: Simplify_def canonical_def bounds_ordered_def)
next
  case l: (Some l)
  show ?thesis
  proof (cases "raw_upper p")
    case None
    with assms l show ?thesis
      by (simp add: Simplify_def canonical_def bounds_ordered_def)
  next
    case (Some u)
    show ?thesis
    proof (cases "l < u \<and> \<not> consecutive l u")
      case True
      then have "\<not> u \<le> l" by (simp add: not_le)
      with True assms l Some show ?thesis
        by (simp add: Simplify_def canonical_def bounds_ordered_def)
    next
      case False
      with assms l Some show ?thesis
        by (auto simp add: Simplify_def not_less)
    qed
  qed
qed

lemma canonical_Simplify_InList:
  assumes "predicate_type p = InListT" and "sorted_wrt (<) (raw_values p)"
  shows "canonical (Simplify consecutive p)"
proof (cases "raw_values p")
  case Nil
  with assms show ?thesis by (simp add: Simplify_def)
next
  case (Cons x xs)
  show ?thesis
  proof (cases xs)
    case Nil
    with Cons assms show ?thesis by (simp add: Simplify_def)
  next
    case (Cons y ys)
    with \<open>raw_values p = x # xs\<close> assms show ?thesis
      by (simp add: Simplify_def canonical_def)
  qed
qed

lemma canonical_Simplify_InBloomFilter:
  assumes "predicate_type p = InBloomFilterT" and "bloom_filters p \<noteq> []"
  shows "canonical (Simplify consecutive p)"
proof (cases "\<exists>l u. raw_lower p = Some l \<and> raw_upper p = Some u \<and> u \<le> l")
  case True
  with assms show ?thesis
    by (auto simp add: Simplify_def)
next
  case False
  with assms have "Simplify consecutive p = p"
    by (auto simp add: Simplify_def not_le split: option.splits)
  moreover from False assms have "canonical p"
    by (cases "bloom_filters p")
      (auto simp add: canonical_def bounds_ordered_def not_le split: option.splits)
  ultimately show ?thesis by simp
qed

lemma canonical_sorted:
  "canonical p \<Longrightarrow> predicate_type p = InListT \<Longrightarrow> sorted_wrt (<) (raw_values p)"
  by (simp add: canonical_def)

lemma intersect_bounds_simps [simp]:
  "predicate_type (intersect_bounds p other) = predicate_type p"
  "raw_lower (intersect_bounds p other) = larger_lower (raw_lower p) (raw_lower other)"
  "raw_upper (intersect_bounds p other) = smaller_upper (raw_upper p) (raw_upper other)"
  "bloom_filters (intersect_bounds p other) = bloom_filters p"
  "raw_values (intersect_bounds p other) = raw_values p"
  by (simp_all add: intersect_bounds_def)

lemma to_InList_simps [simp]:
  "raw_values (to_InList p vs) = vs"
  by (simp_all add: to_InList_def)

lemma larger_lower_None: "(larger_lower x y = None) = (x = None \<and> y = None)"
  by (cases x; cases y) (simp_all add: larger_lower_def)

lemma smaller_upper_None: "(smaller_upper x y = None) = (x = None \<and> y = None)"
  by (cases x; cases y) (simp_all add: smaller_upper_def)

subsection \<open>Each row of the merge table is the conjunction\<close>

lemma spec_MergeIntoRange:
  assumes "consecutive_sound consecutive" and "predicate_type p = RangeT"
  shows "spec_EvaluateCell mc (MergeIntoRange consecutive p other) c =
     (spec_EvaluateCell mc p c \<and> spec_EvaluateCell mc other c)"
proof (cases "predicate_type other")
  case RangeT
  with assms show ?thesis
    by (simp add: MergeIntoRange_def spec_Simplify spec_Range value_in_range_intersect)
next
  case InBloomFilterT
  with assms show ?thesis
    by (auto simp add: MergeIntoRange_def spec_Simplify spec_Range spec_InBloomFilter
        value_in_filters_def value_in_range_intersect)
next
  case EqualityT
  with assms show ?thesis
    by (auto simp add: MergeIntoRange_def spec_Range spec_Equality)
next
  case InListT
  with assms show ?thesis
    by (auto simp add: MergeIntoRange_def spec_Simplify spec_Range spec_InList)
qed (use assms in \<open>simp_all add: MergeIntoRange_def spec_EvaluateCell_def\<close>)

lemma spec_MergeIntoEquality:
  assumes "predicate_type p = EqualityT"
  shows "spec_EvaluateCell mc (MergeIntoEquality mc p other) c =
     (spec_EvaluateCell mc p c \<and> spec_EvaluateCell mc other c)"
proof (cases "predicate_type other")
  case EqualityT
  with assms show ?thesis
    by (auto simp add: MergeIntoEquality_def spec_Equality)
next
  case RangeT
  with assms show ?thesis
    by (auto simp add: MergeIntoEquality_def spec_Equality spec_Range)
next
  case InListT
  with assms show ?thesis
    by (auto simp add: MergeIntoEquality_def spec_Equality spec_InList value_in_list_iff)
next
  case InBloomFilterT
  with assms show ?thesis
    by (auto simp add: MergeIntoEquality_def spec_Equality spec_InBloomFilter)
qed (use assms in \<open>simp_all add: MergeIntoEquality_def spec_EvaluateCell_def\<close>)

lemma spec_MergeIntoIsNotNull:
  assumes "predicate_type p = IsNotNullT"
  shows "spec_EvaluateCell mc (MergeIntoIsNotNull p other) c =
     (spec_EvaluateCell mc p c \<and> spec_EvaluateCell mc other c)"
  using assms
  by (cases "predicate_type other") (simp_all add: MergeIntoIsNotNull_def spec_EvaluateCell_def)

lemma spec_MergeIntoIsNull:
  assumes "predicate_type p = IsNullT"
  shows "spec_EvaluateCell mc (MergeIntoIsNull p other) c =
     (spec_EvaluateCell mc p c \<and> spec_EvaluateCell mc other c)"
  using assms
  by (simp add: MergeIntoIsNull_def spec_EvaluateCell_def)

lemma spec_MergeIntoInList:
  assumes "consecutive_sound consecutive" and "predicate_type p = InListT"
  shows "spec_EvaluateCell mc (MergeIntoInList consecutive mc p other) c =
     (spec_EvaluateCell mc p c \<and> spec_EvaluateCell mc other c)"
proof (cases "predicate_type other")
  case EqualityT
  with assms show ?thesis
    by (auto simp add: MergeIntoInList_def spec_Equality spec_InList value_in_list_iff)
next
  case RangeT
  with assms show ?thesis
    by (auto simp add: MergeIntoInList_def spec_Simplify spec_Range spec_InList)
next
  case InListT
  with assms show ?thesis
    by (auto simp add: MergeIntoInList_def spec_Simplify spec_InList value_in_list_iff)
next
  case InBloomFilterT
  with assms show ?thesis
    by (auto simp add: MergeIntoInList_def spec_Simplify spec_InList spec_InBloomFilter)
qed (use assms in \<open>simp_all add: MergeIntoInList_def spec_EvaluateCell_def\<close>)

lemma spec_MergeIntoBloomFilter:
  assumes "consecutive_sound consecutive" and "predicate_type p = InBloomFilterT"
  shows "spec_EvaluateCell mc (MergeIntoBloomFilter consecutive mc p other) c =
     (spec_EvaluateCell mc p c \<and> spec_EvaluateCell mc other c)"
proof (cases "predicate_type other")
  case EqualityT
  with assms show ?thesis
    by (auto simp add: MergeIntoBloomFilter_def spec_Equality spec_InBloomFilter)
next
  case RangeT
  with assms show ?thesis
    by (auto simp add: MergeIntoBloomFilter_def spec_Simplify spec_Range spec_InBloomFilter
        value_in_filters_def value_in_range_intersect)
next
  case InListT
  with assms show ?thesis
    by (auto simp add: MergeIntoBloomFilter_def spec_Simplify spec_InList spec_InBloomFilter)
next
  case InBloomFilterT
  with assms show ?thesis
    by (auto simp add: MergeIntoBloomFilter_def spec_Simplify spec_InBloomFilter
        value_in_filters_def value_in_range_intersect)
qed (use assms in \<open>simp_all add: MergeIntoBloomFilter_def spec_EvaluateCell_def\<close>)

subsection \<open>Each row of the merge table gives a canonical predicate\<close>

lemma canonical_bloom_filters:
  "canonical p \<Longrightarrow> predicate_type p = InBloomFilterT \<Longrightarrow> bloom_filters p \<noteq> []"
  by (cases "bloom_filters p") (simp_all add: canonical_def)

lemma canonical_Range_bound:
  "canonical p \<Longrightarrow> predicate_type p = RangeT \<Longrightarrow> raw_lower p \<noteq> None \<or> raw_upper p \<noteq> None"
  by (simp add: canonical_def)

lemma canonical_MergeIntoRange:
  assumes "canonical p" and "canonical other" and "predicate_type p = RangeT"
  shows "canonical (MergeIntoRange consecutive p other)"
proof (cases "predicate_type other")
  case RangeT
  with assms canonical_Range_bound [OF assms(1,3)] show ?thesis
    by (auto simp add: MergeIntoRange_def larger_lower_None smaller_upper_None
        intro!: canonical_Simplify_Range)
next
  case InListT
  with assms canonical_sorted [OF assms(2)] show ?thesis
    by (auto simp add: MergeIntoRange_def sorted_wrt_filter intro!: canonical_Simplify_InList)
next
  case InBloomFilterT
  with assms canonical_bloom_filters [OF assms(2)] show ?thesis
    by (auto simp add: MergeIntoRange_def intro!: canonical_Simplify_InBloomFilter)
qed (use assms in \<open>simp_all add: MergeIntoRange_def\<close>)

lemma canonical_MergeIntoEquality:
  assumes "canonical p"
  shows "canonical (MergeIntoEquality mc p other)"
  using assms by (cases "predicate_type other") (simp_all add: MergeIntoEquality_def Let_def)

lemma canonical_MergeIntoIsNotNull:
  assumes "canonical other"
  shows "canonical (MergeIntoIsNotNull p other)"
  using assms by (cases "predicate_type other") (simp_all add: MergeIntoIsNotNull_def)

lemma canonical_MergeIntoIsNull:
  assumes "canonical p"
  shows "canonical (MergeIntoIsNull p other)"
  using assms by (simp add: MergeIntoIsNull_def)

lemma canonical_MergeIntoInList:
  assumes "canonical p" and "predicate_type p = InListT"
  shows "canonical (MergeIntoInList consecutive mc p other)"
  using assms canonical_sorted [OF assms]
  by (cases "predicate_type other")
    (auto simp add: MergeIntoInList_def sorted_wrt_filter intro!: canonical_Simplify_InList)

lemma canonical_MergeIntoBloomFilter:
  assumes "canonical p" and "canonical other" and "predicate_type p = InBloomFilterT"
  shows "canonical (MergeIntoBloomFilter consecutive mc p other)"
proof (cases "predicate_type other")
  case RangeT
  with assms canonical_bloom_filters [OF assms(1,3)] show ?thesis
    by (auto simp add: MergeIntoBloomFilter_def intro!: canonical_Simplify_InBloomFilter)
next
  case InListT
  with assms canonical_sorted [OF assms(2)] show ?thesis
    by (auto simp add: MergeIntoBloomFilter_def sorted_wrt_filter intro!: canonical_Simplify_InList)
next
  case InBloomFilterT
  with assms canonical_bloom_filters [OF assms(1,3)] show ?thesis
    by (auto simp add: MergeIntoBloomFilter_def intro!: canonical_Simplify_InBloomFilter)
qed (use assms in \<open>simp_all add: MergeIntoBloomFilter_def\<close>)

subsection \<open>Only IsNull merged with IsNull is IsNull\<close>

lemma IsNull_MergeIntoRange:
  "predicate_type p = RangeT \<Longrightarrow> predicate_type (MergeIntoRange consecutive p other) \<noteq> IsNullT"
  by (cases "predicate_type other") (simp_all add: MergeIntoRange_def type_Simplify_IsNull)

lemma IsNull_MergeIntoEquality:
  "predicate_type p = EqualityT \<Longrightarrow> predicate_type (MergeIntoEquality mc p other) \<noteq> IsNullT"
  by (cases "predicate_type other") (simp_all add: MergeIntoEquality_def Let_def)

lemma IsNull_MergeIntoIsNotNull:
  "predicate_type (MergeIntoIsNotNull p other) \<noteq> IsNullT"
  by (cases "predicate_type other") (simp_all add: MergeIntoIsNotNull_def)

lemma IsNull_MergeIntoIsNull:
  "predicate_type p = IsNullT \<Longrightarrow>
     (predicate_type (MergeIntoIsNull p other) = IsNullT) = (predicate_type other = IsNullT)"
  by (simp add: MergeIntoIsNull_def)

lemma IsNull_MergeIntoInList:
  "predicate_type p = InListT \<Longrightarrow>
     predicate_type (MergeIntoInList consecutive mc p other) \<noteq> IsNullT"
  by (cases "predicate_type other") (simp_all add: MergeIntoInList_def type_Simplify_IsNull)

lemma IsNull_MergeIntoBloomFilter:
  "predicate_type p = InBloomFilterT \<Longrightarrow>
     predicate_type (MergeIntoBloomFilter consecutive mc p other) \<noteq> IsNullT"
  by (cases "predicate_type other") (simp_all add: MergeIntoBloomFilter_def type_Simplify_IsNull)

subsection \<open>Merge is the conjunction\<close>

lemma Merge_Some:
  assumes "column p = column other"
  obtains m where "Merge consecutive mc p other = Some m"
  using assms by (simp add: Merge_def)

lemma Merge_canonical:
  assumes "canonical p" and "canonical other" and "Merge consecutive mc p other = Some m"
  shows "canonical m"
  using assms
  by (cases "predicate_type p")
    (auto simp add: Merge_def canonical_MergeIntoRange canonical_MergeIntoEquality
      canonical_MergeIntoIsNotNull canonical_MergeIntoIsNull canonical_MergeIntoInList
      canonical_MergeIntoBloomFilter split: if_splits)

lemma Merge_spec:
  assumes "consecutive_sound consecutive" and "Merge consecutive mc p other = Some m"
  shows "spec_EvaluateCell mc m c = (spec_EvaluateCell mc p c \<and> spec_EvaluateCell mc other c)"
proof (cases "predicate_type p")
  case NoneT
  with assms show ?thesis
    by (auto simp add: Merge_def spec_EvaluateCell_def split: if_splits)
qed (use assms in \<open>auto simp add: Merge_def spec_MergeIntoRange spec_MergeIntoEquality
      spec_MergeIntoIsNotNull spec_MergeIntoIsNull spec_MergeIntoInList
      spec_MergeIntoBloomFilter split: if_splits\<close>)

lemma Merge_IsNull:
  assumes "Merge consecutive mc p other = Some m"
  shows "(predicate_type m = IsNullT) = (predicate_type p = IsNullT \<and> predicate_type other = IsNullT)"
  using assms
  by (cases "predicate_type p")
    (auto simp add: Merge_def IsNull_MergeIntoRange IsNull_MergeIntoEquality
      IsNull_MergeIntoIsNotNull IsNull_MergeIntoIsNull IsNull_MergeIntoInList
      IsNull_MergeIntoBloomFilter split: if_splits)

text \<open>Claim C1. For canonical predicates \<open>p\<close> and \<open>q\<close> on the same column,
  \<^verbatim>\<open>p.Merge(q)\<close> gives a canonical predicate that matches a row value, null or not, if
  and only if \<open>p\<close> matches it and \<open>q\<close> matches it.\<close>

theorem Merge_is_conjunction:
  assumes "canonical p" and "canonical q" and "column p = column q"
    and "consecutive_sound consecutive"
  shows "\<exists>m bp bq. Merge consecutive mc p q = Some m \<and> canonical m \<and>
           matches mc p r = Some bp \<and> matches mc q r = Some bq \<and>
           matches mc m r = Some (bp \<and> bq)"
proof -
  from assms(3) obtain m where m: "Merge consecutive mc p q = Some m"
    by (rule Merge_Some)
  from assms(1,2) m have cm: "canonical m"
    by (rule Merge_canonical)
  show ?thesis
  proof (cases r)
    case None
    with m cm show ?thesis
      by (simp add: matches_def Merge_IsNull [OF m])
  next
    case (Some c)
    with m cm show ?thesis
      by (simp add: matches_def EvaluateCell_canonical assms(1,2) Merge_spec [OF assms(4) m])
  qed
qed

lemma consecutive_sound_int: "consecutive_sound (\<lambda>l u :: int. u = l + 1)"
  by (auto simp add: consecutive_sound_def)

theorem Merge_is_conjunction_witness:
  "\<exists>m bp bq.
     Merge (\<lambda>l u :: int. u = l + 1) (\<lambda>bf c. True)
       \<lparr>predicate_type = RangeT, column = \<lparr>col_name = ''c'', is_nullable = False\<rparr>,
        raw_lower = Some (10 :: int), raw_upper = Some 20, raw_values = [], bloom_filters = []\<rparr>
       \<lparr>predicate_type = InListT, column = \<lparr>col_name = ''c'', is_nullable = False\<rparr>,
        raw_lower = None, raw_upper = None, raw_values = [1, 3, 15, 17, 29 :: int], bloom_filters = []\<rparr>
       = Some m \<and> canonical m \<and>
     matches (\<lambda>bf c. True)
       \<lparr>predicate_type = RangeT, column = \<lparr>col_name = ''c'', is_nullable = False\<rparr>,
        raw_lower = Some (10 :: int), raw_upper = Some 20, raw_values = [], bloom_filters = []\<rparr>
       (Some (17 :: int)) = Some bp \<and>
     matches (\<lambda>bf c. True)
       \<lparr>predicate_type = InListT, column = \<lparr>col_name = ''c'', is_nullable = False\<rparr>,
        raw_lower = None, raw_upper = None, raw_values = [1, 3, 15, 17, 29 :: int], bloom_filters = []\<rparr>
       (Some (17 :: int)) = Some bq \<and>
     matches (\<lambda>bf c. True) m (Some (17 :: int)) = Some (bp \<and> bq)"
proof -
  let ?p = "\<lparr>predicate_type = RangeT, column = \<lparr>col_name = ''c'', is_nullable = False\<rparr>,
        raw_lower = Some (10 :: int), raw_upper = Some 20, raw_values = [], bloom_filters = []\<rparr>"
  let ?q = "\<lparr>predicate_type = InListT, column = \<lparr>col_name = ''c'', is_nullable = False\<rparr>,
        raw_lower = None, raw_upper = None, raw_values = [1, 3, 15, 17, 29 :: int], bloom_filters = []\<rparr>"
  have p: "canonical ?p"
    by (simp add: canonical_def bounds_ordered_def)
  have q: "canonical ?q"
    by (simp add: canonical_def)
  have c: "column ?p = column ?q"
    by simp
  have s: "consecutive_sound (\<lambda>l u :: int. u = l + 1)"
    by (auto simp add: consecutive_sound_def)
  show ?thesis
    by (rule Merge_is_conjunction [OF p q c s])
qed

text \<open>The scenarios P1, P2 and P3 of the specification, on a column of integers.\<close>

lemma scenario_P1:
  "Merge (\<lambda>l u :: int. u = l + 1) mc
     \<lparr>predicate_type = RangeT, column = col, raw_lower = Some 10, raw_upper = Some 20,
      raw_values = [], bloom_filters = []\<rparr>
     \<lparr>predicate_type = RangeT, column = col, raw_lower = Some 15, raw_upper = Some 25,
      raw_values = [], bloom_filters = []\<rparr>
   = Some \<lparr>predicate_type = RangeT, column = col, raw_lower = Some 15, raw_upper = Some 20,
      raw_values = [], bloom_filters = []\<rparr>"
  by (simp add: Merge_def MergeIntoRange_def Simplify_def intersect_bounds_def larger_lower_def
      smaller_upper_def)

lemma scenario_P2:
  "Merge (\<lambda>l u :: int. u = l + 1) mc
     \<lparr>predicate_type = EqualityT, column = col, raw_lower = Some 7, raw_upper = None,
      raw_values = [], bloom_filters = []\<rparr>
     \<lparr>predicate_type = RangeT, column = col, raw_lower = Some 0, raw_upper = Some 10,
      raw_values = [], bloom_filters = []\<rparr>
   = Some \<lparr>predicate_type = EqualityT, column = col, raw_lower = Some 7, raw_upper = None,
      raw_values = [], bloom_filters = []\<rparr> \<and>
   Merge (\<lambda>l u :: int. u = l + 1) mc
     \<lparr>predicate_type = EqualityT, column = col, raw_lower = Some 7, raw_upper = None,
      raw_values = [], bloom_filters = []\<rparr>
     \<lparr>predicate_type = RangeT, column = col, raw_lower = Some 8, raw_upper = Some 10,
      raw_values = [], bloom_filters = []\<rparr>
   = Some \<lparr>predicate_type = NoneT, column = col, raw_lower = None, raw_upper = None,
      raw_values = [], bloom_filters = []\<rparr>"
  by (simp add: Merge_def MergeIntoEquality_def value_in_range_def SetToNone_def)

lemma scenario_P3:
  "Merge (\<lambda>l u :: int. u = l + 1) mc
     \<lparr>predicate_type = InListT, column = col, raw_lower = None, raw_upper = None,
      raw_values = [1, 3, 5, 7, 9], bloom_filters = []\<rparr>
     \<lparr>predicate_type = RangeT, column = col, raw_lower = Some 3, raw_upper = Some 8,
      raw_values = [], bloom_filters = []\<rparr>
   = Some \<lparr>predicate_type = InListT, column = col, raw_lower = None, raw_upper = None,
      raw_values = [3, 5, 7], bloom_filters = []\<rparr> \<and>
   Merge (\<lambda>l u :: int. u = l + 1) mc
     \<lparr>predicate_type = InListT, column = col, raw_lower = None, raw_upper = None,
      raw_values = [1, 3, 5, 7, 9], bloom_filters = []\<rparr>
     \<lparr>predicate_type = RangeT, column = col, raw_lower = Some 5, raw_upper = Some 6,
      raw_values = [], bloom_filters = []\<rparr>
   = Some \<lparr>predicate_type = EqualityT, column = col, raw_lower = Some 5, raw_upper = None,
      raw_values = [], bloom_filters = []\<rparr>"
  by (simp add: Merge_def MergeIntoInList_def value_in_range_def Simplify_def to_InList_def
      to_Equality_def)

section \<open>The block cache: proofs\<close>

subsection \<open>Entries leaving the eviction list\<close>

lemma set_remove_entry: "set (remove_entry e es) = {x \<in> set es. e_id x \<noteq> e_id e}"
  by (auto simp add: remove_entry_def)

lemma ids_remove_entry:
  "distinct (map e_id es) \<Longrightarrow> e \<in> set es \<Longrightarrow>
     mset (map e_id (remove_entry e es)) + {#e_id e#} = mset (map e_id es)"
proof (induction es)
  case Nil
  then show ?case by simp
next
  case (Cons x xs)
  show ?case
  proof (cases "e_id x = e_id e")
    case True
    with Cons.prems have "\<forall>y \<in> set xs. e_id y \<noteq> e_id e"
      by (metis distinct.simps(2) image_eqI list.simps(9) set_map)
    then have "remove_entry e xs = xs"
      by (simp add: remove_entry_def)
    with True show ?thesis
      by (simp add: remove_entry_def)
  next
    case False
    with Cons show ?thesis
      by (auto simp add: remove_entry_def)
  qed
qed

lemma keys_remove_entry:
  "distinct (map e_key es) \<Longrightarrow> distinct (map e_key (remove_entry e es))"
  by (simp add: remove_entry_def distinct_map_filter)

lemma sorted_remove_entry:
  "sorted_wrt (<) (map e_id es) \<Longrightarrow> sorted_wrt (<) (map e_id (remove_entry e es))"
  by (induction es) (auto simp add: remove_entry_def)

lemma find_key_Some:
  "find (\<lambda>e. e_key e = k) es = Some e \<Longrightarrow> e \<in> set es \<and> e_key e = k"
  by (auto simp add: find_Some_iff)

lemma find_key_None:
  "(find (\<lambda>e. e_key e = k) es = None) = (k \<notin> e_key ` set es)"
  by (auto simp add: find_None_iff)



lemma remove_entry_key_absent:
  assumes "distinct (map e_key es)" and "e \<in> set es"
  shows "e_key e \<notin> e_key ` set (remove_entry e es)"
proof
  assume "e_key e \<in> e_key ` set (remove_entry e es)"
  then obtain x where x: "x \<in> set es" "e_id x \<noteq> e_id e" "e_key x = e_key e"
    by (auto simp add: set_remove_entry)
  with assms have "x = e"
    by (metis distinct_map inj_onD)
  with x show False by simp
qed

subsection \<open>The eviction pass\<close>

lemma evict_prefix:
  "\<exists>n \<le> length es.
     snd (evict cap u es) = filter (\<lambda>e. e_pins e = 0) (take n es) \<and>
     fst (evict cap u es) = filter (\<lambda>e. e_pins e > 0) (take n es) @ drop n es"
proof (induction es arbitrary: u)
  case Nil
  then show ?case by simp
next
  case (Cons e es)
  show ?case
  proof (cases "u \<le> cap")
    case True
    then have "snd (evict cap u (e # es)) = filter (\<lambda>e. e_pins e = 0) (take 0 (e # es)) \<and>
       fst (evict cap u (e # es)) = filter (\<lambda>e. e_pins e > 0) (take 0 (e # es)) @ drop 0 (e # es)"
      by simp
    then show ?thesis by blast
  next
    case False
    show ?thesis
    proof (cases "e_pins e > 0")
      case True
      from Cons.IH [of u] obtain n where "n \<le> length es"
        "snd (evict cap u es) = filter (\<lambda>e. e_pins e = 0) (take n es)"
        "fst (evict cap u es) = filter (\<lambda>e. e_pins e > 0) (take n es) @ drop n es"
        by blast
      with False True have "Suc n \<le> length (e # es) \<and>
        snd (evict cap u (e # es)) = filter (\<lambda>e. e_pins e = 0) (take (Suc n) (e # es)) \<and>
        fst (evict cap u (e # es)) =
          filter (\<lambda>e. e_pins e > 0) (take (Suc n) (e # es)) @ drop (Suc n) (e # es)"
        by (simp add: split_beta)
      then show ?thesis by blast
    next
      case unp: False
      from Cons.IH [of "u - e_charge e"] obtain n where "n \<le> length es"
        "snd (evict cap (u - e_charge e) es) = filter (\<lambda>e. e_pins e = 0) (take n es)"
        "fst (evict cap (u - e_charge e) es) = filter (\<lambda>e. e_pins e > 0) (take n es) @ drop n es"
        by blast
      with False unp have "Suc n \<le> length (e # es) \<and>
        snd (evict cap u (e # es)) = filter (\<lambda>e. e_pins e = 0) (take (Suc n) (e # es)) \<and>
        fst (evict cap u (e # es)) =
          filter (\<lambda>e. e_pins e > 0) (take (Suc n) (e # es)) @ drop (Suc n) (e # es)"
        by (simp add: split_beta)
      then show ?thesis by blast
    qed
  qed
qed

lemma evict_mset: "mset (fst (evict cap u es)) + mset (snd (evict cap u es)) = mset es"
  by (induction es arbitrary: u) (auto simp add: split_beta)

lemma evict_victims_unpinned: "x \<in> set (snd (evict cap u es)) \<Longrightarrow> e_pins x = 0"
  by (induction es arbitrary: u) (auto simp add: split_beta split: if_splits)

lemma evict_kept_subset: "set (fst (evict cap u es)) \<subseteq> set es"
  using evict_mset [of cap u es] by (metis mset_subset_eqD mset_subset_eq_add_left set_mset_mset subsetI)

lemma evict_victims_subset: "set (snd (evict cap u es)) \<subseteq> set es"
  using evict_mset [of cap u es] by (metis mset_subset_eqD mset_subset_eq_add_right set_mset_mset subsetI)

lemma evict_kept_sorted:
  "sorted_wrt (<) (map e_id es) \<Longrightarrow> sorted_wrt (<) (map e_id (fst (evict cap u es)))"
proof (induction es arbitrary: u)
  case Nil
  then show ?case by simp
next
  case (Cons e es)
  then show ?case
    using evict_kept_subset [of cap u es]
    by (auto simp add: split_beta)
qed

lemma evict_kept_keys:
  "distinct (map e_key es) \<Longrightarrow> distinct (map e_key (fst (evict cap u es)))"
proof (induction es arbitrary: u)
  case Nil
  then show ?case by simp
next
  case (Cons e es)
  then show ?case
    using evict_kept_subset [of cap u es]
    by (auto simp add: split_beta)
qed

lemma evict_victims_before_kept:
  assumes "sorted_wrt (<) (map e_id es)"
    and "x \<in> set (snd (evict cap u es))" and "y \<in> set (fst (evict cap u es))" and "e_pins y = 0"
  shows "e_id x < e_id y"
proof -
  from evict_prefix [of es cap u] obtain n where n: "n \<le> length es"
    "snd (evict cap u es) = filter (\<lambda>e. e_pins e = 0) (take n es)"
    "fst (evict cap u es) = filter (\<lambda>e. e_pins e > 0) (take n es) @ drop n es"
    by blast
  from assms(2) n have x: "x \<in> set (take n es)" by simp
  from assms(3,4) n have y: "y \<in> set (drop n es)" by auto
  from assms(1) have "sorted_wrt (<) (map e_id (take n es @ drop n es))" by simp
  then have "\<forall>a \<in> set (take n es). \<forall>b \<in> set (drop n es). e_id a < e_id b"
    unfolding map_append sorted_wrt_append by simp
  with x y show ?thesis by blast
qed

subsection \<open>The invariant and the replacement of a shard\<close>

lemma mset_concat_update:
  "i < length xs \<Longrightarrow>
     mset (concat (map g (xs[i := y]))) + mset (g (xs ! i)) = mset (concat (map g xs)) + mset (g y)"
proof (induction xs arbitrary: i)
  case Nil
  then show ?case by simp
next
  case (Cons x xs)
  then show ?case
    by (cases i) (auto simp add: ac_simps)
qed

lemma shard_of_put_shard [simp]:
  "shard_of hash (put_shard c i r) k = shard_of hash c k"
  by (simp add: shard_of_def put_shard_def)

lemma ids_put_shard:
  assumes "i < length (shards c)"
  shows "mset (map e_id (all_entries (put_shard c i (s', f)))) +
           mset (map e_id (rl (shards c ! i) @ detached (shards c ! i)))
         = mset (map e_id (all_entries c)) + mset (map e_id (rl s' @ detached s' @ f))"
proof -
  have "mset (concat (map (\<lambda>s. rl s @ detached s) ((shards c)[i := s']))) +
          mset (rl (shards c ! i) @ detached (shards c ! i))
        = mset (concat (map (\<lambda>s. rl s @ detached s) (shards c))) + mset (rl s' @ detached s')"
    using assms by (rule mset_concat_update)
  then have "image_mset e_id (mset (concat (map (\<lambda>s. rl s @ detached s) ((shards c)[i := s']))) +
          mset (rl (shards c ! i) @ detached (shards c ! i)))
        = image_mset e_id (mset (concat (map (\<lambda>s. rl s @ detached s) (shards c))) +
          mset (rl s' @ detached s'))"
    by simp
  then show ?thesis
    by (simp add: all_entries_def put_shard_def ac_simps)
qed

lemma cache_inv_put_shard:
  assumes inv: "cache_inv hash c" and i: "i < length (shards c)"
    and ids: "mset (map e_id (rl s' @ detached s' @ f)) =
              mset (map e_id (rl (shards c ! i) @ detached (shards c ! i))) + mset news"
    and news: "distinct news" "\<forall>x \<in> set news. next_id c \<le> x \<and> x < n"
    and n: "next_id c \<le> n"
    and keys: "distinct (map e_key (rl s'))"
    and home: "\<forall>e \<in> set (rl s'). shard_of hash c (e_key e) = i"
  shows "cache_inv hash ((put_shard c i (s', f))\<lparr>next_id := n\<rparr>)"
proof -
  let ?c' = "(put_shard c i (s', f))\<lparr>next_id := n\<rparr>"
  have ae: "all_entries ?c' = all_entries (put_shard c i (s', f))"
    by (simp add: all_entries_def)
  have so: "shard_of hash ?c' k = shard_of hash c k" for k
    by (simp add: shard_of_def put_shard_def)
  from ids_put_shard [OF i, of s' f] ids
  have m: "mset (map e_id (all_entries ?c')) = mset (map e_id (all_entries c) @ news)"
    by (simp add: ae)
  from inv have d: "distinct (map e_id (all_entries c))"
    and lt: "\<forall>e \<in> set (all_entries c). e_id e < next_id c"
    by (simp_all add: cache_inv_def)
  have "set (map e_id (all_entries c)) \<inter> set news = {}"
  proof (rule ccontr)
    assume "set (map e_id (all_entries c)) \<inter> set news \<noteq> {}"
    then obtain x where x: "x \<in> set (map e_id (all_entries c))" "x \<in> set news"
      by blast
    from x(1) lt have "x < next_id c" by auto
    moreover from x(2) news have "next_id c \<le> x" by simp
    ultimately show False by simp
  qed
  with d news have "distinct (map e_id (all_entries c) @ news)"
    by simp
  with m have d': "distinct (map e_id (all_entries ?c'))"
    by (metis mset_eq_imp_distinct_iff)
  from m have "set (map e_id (all_entries ?c')) = set (map e_id (all_entries c) @ news)"
    by (rule mset_eq_setD)
  have lt': "\<forall>e \<in> set (all_entries ?c'). e_id e < n"
  proof
    fix e assume "e \<in> set (all_entries ?c')"
    then have "e_id e \<in> set (map e_id (all_entries ?c'))" by simp
    with \<open>set (map e_id (all_entries ?c')) = set (map e_id (all_entries c) @ news)\<close>
    have "e_id e \<in> set (map e_id (all_entries c)) \<or> e_id e \<in> set news"
      by simp
    then show "e_id e < n"
    proof
      assume "e_id e \<in> set (map e_id (all_entries c))"
      with lt have "e_id e < next_id c" by auto
      with n show ?thesis by simp
    next
      assume "e_id e \<in> set news"
      with news show ?thesis by simp
    qed
  qed
  have sh: "\<forall>j < length (shards ?c').
      distinct (map e_key (rl (shards ?c' ! j))) \<and>
      (\<forall>e \<in> set (rl (shards ?c' ! j)). shard_of hash ?c' (e_key e) = j)"
  proof (intro allI impI)
    fix j assume j: "j < length (shards ?c')"
    show "distinct (map e_key (rl (shards ?c' ! j))) \<and>
      (\<forall>e \<in> set (rl (shards ?c' ! j)). shard_of hash ?c' (e_key e) = j)"
    proof (cases "j = i")
      case True
      with i keys home show ?thesis
        by (simp add: so) (simp add: put_shard_def)
    next
      case False
      with j inv show ?thesis
        by (simp add: so) (simp add: put_shard_def cache_inv_def)
    qed
  qed
  from inv have "0 < length (shards ?c')"
    by (simp add: cache_inv_def put_shard_def)
  with sh d' lt' show ?thesis
    unfolding cache_inv_def by simp
qed

lemma cache_inv_put_shard_same:
  assumes inv: "cache_inv hash c" and i: "i < length (shards c)"
    and ids: "mset (map e_id (rl s' @ detached s' @ f)) =
              mset (map e_id (rl (shards c ! i) @ detached (shards c ! i)))"
    and keys: "distinct (map e_key (rl s'))"
    and home: "\<forall>e \<in> set (rl s'). shard_of hash c (e_key e) = i"
  shows "cache_inv hash (put_shard c i (s', f))"
proof -
  from ids have "mset (map e_id (rl s' @ detached s' @ f)) =
      mset (map e_id (rl (shards c ! i) @ detached (shards c ! i))) + mset []"
    by simp
  with inv i have "cache_inv hash ((put_shard c i (s', f))\<lparr>next_id := next_id c\<rparr>)"
    by (rule cache_inv_put_shard) (simp_all add: keys home)
  moreover have "(put_shard c i (s', f))\<lparr>next_id := next_id c\<rparr> = put_shard c i (s', f)"
    by (simp add: put_shard_def)
  ultimately show ?thesis by simp
qed

lemma distinct_concat_nth:
  "distinct (map f (concat (map g xs))) \<Longrightarrow> i < length xs \<Longrightarrow> distinct (map f (g (xs ! i)))"
proof (induction xs arbitrary: i)
  case Nil
  then show ?case by simp
next
  case (Cons x xs)
  then show ?case by (cases i) simp_all
qed

lemma cache_inv_shard:
  assumes "cache_inv hash c" and "i < length (shards c)"
  shows "distinct (map e_key (rl (shards c ! i)))"
    and "\<forall>e \<in> set (rl (shards c ! i)). shard_of hash c (e_key e) = i"
    and "distinct (map e_id (rl (shards c ! i) @ detached (shards c ! i)))"
proof -
  from assms show "distinct (map e_key (rl (shards c ! i)))"
    and "\<forall>e \<in> set (rl (shards c ! i)). shard_of hash c (e_key e) = i"
    by (simp_all add: cache_inv_def)
  from assms(1) have "distinct (map e_id (concat (map (\<lambda>s. rl s @ detached s) (shards c))))"
    by (simp add: cache_inv_def all_entries_def)
  then show "distinct (map e_id (rl (shards c ! i) @ detached (shards c ! i)))"
    using assms(2) by (rule distinct_concat_nth)
qed

lemma shard_of_less: "0 < length (shards c) \<Longrightarrow> shard_of hash c k < length (shards c)"
  by (simp add: shard_of_def)

lemma cache_inv_new_Cache: "0 < n \<Longrightarrow> cache_inv hash (new_Cache pol cap n)"
  by (simp add: cache_inv_def new_Cache_def all_entries_def)

subsection \<open>The operations on a shard\<close>

lemma detach_ids:
  assumes "distinct (map e_id (rl s))" and "e \<in> set (rl s)"
  shows "mset (map e_id (rl (fst (detach e s)) @ detached (fst (detach e s)) @ snd (detach e s)))
     = mset (map e_id (rl s @ detached s))"
  using ids_remove_entry [OF assms] by (simp add: detach_def)

lemma rl_detach: "rl (fst (detach e s)) = remove_entry e (rl s)"
  by (simp add: detach_def)

lemma shard_erase_ids:
  assumes "distinct (map e_id (rl s))"
  shows "mset (map e_id (rl (fst (shard_erase k s)) @ detached (fst (shard_erase k s)) @
            snd (shard_erase k s)))
     = mset (map e_id (rl s @ detached s))"
proof (cases "find (\<lambda>e. e_key e = k) (rl s)")
  case None
  then show ?thesis by (simp add: shard_erase_def)
next
  case (Some e)
  then have "e \<in> set (rl s)" by (auto dest: find_key_Some)
  with assms have "mset (map e_id (rl (fst (detach e s)) @ detached (fst (detach e s)) @
      snd (detach e s))) = mset (map e_id (rl s @ detached s))"
    by (rule detach_ids)
  moreover from Some have "shard_erase k s = detach e s"
    by (simp add: shard_erase_def)
  ultimately show ?thesis by simp
qed

lemma rl_shard_erase:
  "rl (fst (shard_erase k s)) =
     (case find (\<lambda>e. e_key e = k) (rl s) of None \<Rightarrow> rl s | Some e \<Rightarrow> remove_entry e (rl s))"
  by (simp add: shard_erase_def rl_detach split: option.splits)

lemma set_rl_shard_erase: "set (rl (fst (shard_erase k s))) \<subseteq> set (rl s)"
  by (auto simp add: rl_shard_erase set_remove_entry split: option.splits)

lemma keys_shard_erase:
  "distinct (map e_key (rl s)) \<Longrightarrow> distinct (map e_key (rl (fst (shard_erase k s))))"
  by (simp add: rl_shard_erase keys_remove_entry split: option.splits)

lemma shard_erase_key_absent:
  assumes "distinct (map e_key (rl s))"
  shows "k \<notin> e_key ` set (rl (fst (shard_erase k s)))"
proof (cases "find (\<lambda>e. e_key e = k) (rl s)")
  case None
  then have "k \<notin> e_key ` set (rl s)"
    by (simp add: find_key_None)
  with None show ?thesis
    by (simp add: rl_shard_erase)
next
  case (Some e)
  then have "e \<in> set (rl s)" "e_key e = k"
    by (auto dest: find_key_Some)
  with remove_entry_key_absent [OF assms, of e] Some show ?thesis
    by (simp add: rl_shard_erase)
qed

lemma detach_all_result:
  "detach_all gone s =
     (s\<lparr>rl := filter (\<lambda>x. e_id x \<notin> e_id ` set gone) (rl s),
        detached := detached s @ filter (\<lambda>e. e_pins e \<noteq> 0) gone\<rparr>,
      filter (\<lambda>e. e_pins e = 0) gone)"
proof (induction gone arbitrary: s)
  case Nil
  then show ?case by simp
next
  case (Cons e es)
  have "filter (\<lambda>x. e_id x \<notin> e_id ` set es) (remove_entry e (rl s)) =
      filter (\<lambda>x. e_id x \<notin> e_id ` set (e # es)) (rl s)"
    by (auto simp add: remove_entry_def intro: filter_cong)
  then show ?case
    by (simp add: Cons.IH detach_def)
qed

subsection \<open>The invariant is kept by insert, lookup, erase and release\<close>

lemma cache_inv_Erase:
  assumes "cache_inv hash c"
  shows "cache_inv hash (Cache_Erase hash c k)"
proof -
  let ?i = "shard_of hash c k"
  from assms have i: "?i < length (shards c)"
    by (simp add: cache_inv_def shard_of_less)
  note sh = cache_inv_shard [OF assms i]
  from sh(3) have d: "distinct (map e_id (rl (shards c ! ?i)))" by simp
  have "cache_inv hash (put_shard c ?i (fst (shard_erase k (shards c ! ?i)),
      snd (shard_erase k (shards c ! ?i))))"
    using assms i
  proof (rule cache_inv_put_shard_same)
    show "mset (map e_id (rl (fst (shard_erase k (shards c ! ?i))) @
        detached (fst (shard_erase k (shards c ! ?i))) @ snd (shard_erase k (shards c ! ?i))))
      = mset (map e_id (rl (shards c ! ?i) @ detached (shards c ! ?i)))"
      using d by (rule shard_erase_ids)
    show "distinct (map e_key (rl (fst (shard_erase k (shards c ! ?i)))))"
      using sh(1) by (rule keys_shard_erase)
    show "\<forall>e \<in> set (rl (fst (shard_erase k (shards c ! ?i)))). shard_of hash c (e_key e) = ?i"
      using sh(2) set_rl_shard_erase [of k "shards c ! ?i"] by blast
  qed
  then show ?thesis
    by (simp add: Cache_Erase_def Let_def)
qed

subsection \<open>The invalidation loop\<close>

lemma visited_le: "visited ctl v i es \<le> length es"
  by (induction es arbitrary: v i) auto

lemma invalidate_loop_gone:
  "snd (invalidate_loop ctl v i es) =
     filter (\<lambda>e. \<not> validity_fn ctl (e_key e) (e_value e)) (take (visited ctl v i es) es)"
  by (induction es arbitrary: v i) (auto simp add: split_beta)

lemma invalidate_loop_stay:
  "fst (invalidate_loop ctl v i es) =
     filter (\<lambda>e. validity_fn ctl (e_key e) (e_value e)) (take (visited ctl v i es) es) @
     drop (visited ctl v i es) es"
  by (induction es arbitrary: v i) (auto simp add: split_beta)

lemma invalidate_loop_advances:
  "j < visited ctl v i es \<Longrightarrow>
     iteration_fn ctl
       (v + length (filter (\<lambda>e. validity_fn ctl (e_key e) (e_value e)) (take j es)))
       (i + length (filter (\<lambda>e. \<not> validity_fn ctl (e_key e) (e_value e)) (take j es)))"
proof (induction es arbitrary: v i j)
  case Nil
  then show ?case by simp
next
  case (Cons e es)
  from Cons.prems have it: "iteration_fn ctl v i"
    by (auto split: if_splits)
  show ?case
  proof (cases j)
    case 0
    with it show ?thesis by simp
  next
    case (Suc j')
    show ?thesis
    proof (cases "validity_fn ctl (e_key e) (e_value e)")
      case True
      with Cons.prems it Suc have "j' < visited ctl (v + 1) i es" by simp
      from Cons.IH [OF this] True Suc show ?thesis by simp
    next
      case False
      with Cons.prems it Suc have "j' < visited ctl v (i + 1) es" by simp
      from Cons.IH [OF this] False Suc show ?thesis by simp
    qed
  qed
qed

lemma invalidate_loop_stops:
  "visited ctl v i es < length es \<Longrightarrow>
     \<not> iteration_fn ctl
       (v + length (filter (\<lambda>e. validity_fn ctl (e_key e) (e_value e)) (take (visited ctl v i es) es)))
       (i + length (filter (\<lambda>e. \<not> validity_fn ctl (e_key e) (e_value e))
             (take (visited ctl v i es) es)))"
proof (induction es arbitrary: v i)
  case Nil
  then show ?case by simp
next
  case (Cons e es)
  show ?case
  proof (cases "iteration_fn ctl v i")
    case False
    then show ?thesis by simp
  next
    case it: True
    show ?thesis
    proof (cases "validity_fn ctl (e_key e) (e_value e)")
      case True
      with Cons.prems it have "visited ctl (v + 1) i es < length es" by simp
      from Cons.IH [OF this] True it show ?thesis by simp
    next
      case False
      with Cons.prems it have "visited ctl v (i + 1) es < length es" by simp
      from Cons.IH [OF this] False it show ?thesis by simp
    qed
  qed
qed

lemma invalidate_loop_mset:
  "mset (fst (invalidate_loop ctl v i es)) + mset (snd (invalidate_loop ctl v i es)) = mset es"
  by (induction es arbitrary: v i) (auto simp add: split_beta)

lemma filter_not_gone:
  assumes "distinct (map e_id es)"
  shows "filter (\<lambda>x. e_id x \<notin> e_id ` set (filter P (take m es))) es =
     filter (\<lambda>x. \<not> P x) (take m es) @ drop m es"
proof -
  let ?G = "filter P (take m es)"
  from assms have d: "distinct (map e_id (take m es @ drop m es))" by simp
  have inj: "inj_on e_id (set es)"
    using assms by (simp add: distinct_map)
  have a: "filter (\<lambda>x. e_id x \<notin> e_id ` set ?G) (take m es) = filter (\<lambda>x. \<not> P x) (take m es)"
  proof (rule filter_cong [OF refl])
    fix x assume x: "x \<in> set (take m es)"
    show "(e_id x \<notin> e_id ` set ?G) = (\<not> P x)"
    proof
      assume "e_id x \<notin> e_id ` set ?G"
      with x show "\<not> P x" by auto
    next
      assume np: "\<not> P x"
      show "e_id x \<notin> e_id ` set ?G"
      proof
        assume "e_id x \<in> e_id ` set ?G"
        then obtain g where g: "g \<in> set (take m es)" "P g" "e_id x = e_id g"
          by auto
        from x g(1) have "x \<in> set es" "g \<in> set es"
          by (auto dest: in_set_takeD)
        with inj g(3) have "x = g"
          by (auto dest: inj_onD)
        with g(2) np show False by simp
      qed
    qed
  qed
  have b: "filter (\<lambda>x. e_id x \<notin> e_id ` set ?G) (drop m es) = drop m es"
  proof (rule filter_True, rule ballI)
    fix x assume x: "x \<in> set (drop m es)"
    show "e_id x \<notin> e_id ` set ?G"
    proof
      assume "e_id x \<in> e_id ` set ?G"
      then obtain g where "g \<in> set (take m es)" "e_id x = e_id g"
        by auto
      with x d show False
        unfolding map_append distinct_append by (metis IntI empty_iff image_eqI set_map)
    qed
  qed
  have "filter (\<lambda>x. e_id x \<notin> e_id ` set ?G) es =
      filter (\<lambda>x. e_id x \<notin> e_id ` set ?G) (take m es @ drop m es)"
    by simp
  also have "\<dots> = filter (\<lambda>x. \<not> P x) (take m es) @ drop m es"
    unfolding filter_append a b ..
  finally show ?thesis .
qed

lemma shard_invalidate_result:
  assumes "distinct (map e_id (rl s))"
  shows "shard_invalidate ctl s =
     ((s\<lparr>rl := fst (invalidate_loop ctl 0 0 (rl s)),
         detached := detached s @ filter (\<lambda>e. e_pins e \<noteq> 0) (snd (invalidate_loop ctl 0 0 (rl s)))\<rparr>,
       filter (\<lambda>e. e_pins e = 0) (snd (invalidate_loop ctl 0 0 (rl s)))),
      length (snd (invalidate_loop ctl 0 0 (rl s))))"
proof -
  have "filter (\<lambda>x. e_id x \<notin> e_id ` set (snd (invalidate_loop ctl 0 0 (rl s)))) (rl s) =
      fst (invalidate_loop ctl 0 0 (rl s))"
    unfolding invalidate_loop_gone invalidate_loop_stay
    using filter_not_gone [OF assms, of "\<lambda>e. \<not> validity_fn ctl (e_key e) (e_value e)"
        "visited ctl 0 0 (rl s)"]
    by simp
  then show ?thesis
    by (simp add: shard_invalidate_def split_beta detach_all_result)
qed

subsection \<open>Insert, lookup and release keep the invariant\<close>

lemma pin_simps [simp]:
  "e_id (pin e) = e_id e" "e_key (pin e) = e_key e" "e_value (pin e) = e_value e"
  "e_id (unpin e) = e_id e" "e_key (unpin e) = e_key e" "e_value (unpin e) = e_value e"
  "e_callback (unpin e) = e_callback e"
  by (simp_all add: pin_def unpin_def)

lemma map_id_cond [simp]:
  "map e_id (map (\<lambda>x. if P x then pin x else x) es) = map e_id es"
  "map e_id (map (\<lambda>x. if P x then unpin x else x) es) = map e_id es"
  "map e_key (map (\<lambda>x. if P x then pin x else x) es) = map e_key es"
  "map e_key (map (\<lambda>x. if P x then unpin x else x) es) = map e_key es"
  by (induction es) simp_all

lemma comp_id_cond [simp]:
  "e_id \<circ> (\<lambda>x. if P x then pin x else x) = e_id"
  "e_id \<circ> (\<lambda>x. if P x then unpin x else x) = e_id"
  "e_key \<circ> (\<lambda>x. if P x then pin x else x) = e_key"
  "e_key \<circ> (\<lambda>x. if P x then unpin x else x) = e_key"
  by (simp_all add: fun_eq_iff)

lemma put_shard_pair: "put_shard c i r = put_shard c i (fst r, snd r)"
  by simp

lemma ids_evict:
  "mset (map e_id (fst (evict cap u es))) + mset (map e_id (snd (evict cap u es))) =
     mset (map e_id es)"
proof -
  have "image_mset e_id (mset (fst (evict cap u es)) + mset (snd (evict cap u es))) =
      image_mset e_id (mset es)"
    by (simp only: evict_mset)
  then show ?thesis by simp
qed

lemma shard_insert_eq:
  "shard_insert cap new s =
     ((fst (shard_erase (e_key new) s))
        \<lparr>rl := fst (evict cap (usage (rl (fst (shard_erase (e_key new) s)) @ [new]))
                 (rl (fst (shard_erase (e_key new) s)) @ [new]))\<rparr>,
      snd (shard_erase (e_key new) s) @
      snd (evict cap (usage (rl (fst (shard_erase (e_key new) s)) @ [new]))
                 (rl (fst (shard_erase (e_key new) s)) @ [new])))"
  by (simp add: shard_insert_def split_beta)

lemma shard_insert_ids:
  assumes "distinct (map e_id (rl s))"
  shows "mset (map e_id (rl (fst (shard_insert cap new s)) @ detached (fst (shard_insert cap new s)) @
            snd (shard_insert cap new s)))
     = mset (map e_id (rl s @ detached s)) + mset [e_id new]"
proof -
  let ?s1 = "fst (shard_erase (e_key new) s)"
  let ?f1 = "snd (shard_erase (e_key new) s)"
  let ?ev = "evict cap (usage (rl ?s1 @ [new])) (rl ?s1 @ [new])"
  have "mset (map e_id (rl (fst (shard_insert cap new s)) @ detached (fst (shard_insert cap new s)) @
            snd (shard_insert cap new s)))
      = (mset (map e_id (fst ?ev)) + mset (map e_id (snd ?ev))) +
        mset (map e_id (detached ?s1 @ ?f1))"
    by (simp add: shard_insert_eq)
  also have "\<dots> = mset (map e_id (rl ?s1 @ [new])) + mset (map e_id (detached ?s1 @ ?f1))"
    by (simp only: ids_evict)
  also have "\<dots> = mset (map e_id (rl ?s1 @ detached ?s1 @ ?f1)) + mset [e_id new]"
    by simp
  also have "\<dots> = mset (map e_id (rl s @ detached s)) + mset [e_id new]"
    by (simp only: shard_erase_ids [OF assms])
  finally show ?thesis .
qed

lemma shard_insert_rl_subset:
  "set (rl (fst (shard_insert cap new s))) \<subseteq> insert new (set (rl s))"
  using evict_kept_subset [of cap "usage (rl (fst (shard_erase (e_key new) s)) @ [new])"
      "rl (fst (shard_erase (e_key new) s)) @ [new]"]
    set_rl_shard_erase [of "e_key new" s]
  by (auto simp add: shard_insert_eq)

lemma shard_insert_keys:
  assumes "distinct (map e_key (rl s))"
  shows "distinct (map e_key (rl (fst (shard_insert cap new s))))"
proof -
  let ?s1 = "fst (shard_erase (e_key new) s)"
  from assms have "distinct (map e_key (rl ?s1))"
    by (rule keys_shard_erase)
  moreover from assms have "e_key new \<notin> e_key ` set (rl ?s1)"
    by (rule shard_erase_key_absent)
  ultimately have "distinct (map e_key (rl ?s1 @ [new]))"
    by simp
  then have "distinct (map e_key (fst (evict cap (usage (rl ?s1 @ [new])) (rl ?s1 @ [new]))))"
    by (rule evict_kept_keys)
  then show ?thesis
    by (simp add: shard_insert_eq)
qed

lemma cache_inv_Insert:
  assumes "cache_inv hash c"
  shows "cache_inv hash (fst (Cache_Insert hash c k v charge cb))"
proof -
  let ?i = "shard_of hash c k"
  let ?new = "\<lparr>e_id = next_id c, e_key = k, e_value = v, e_charge = charge, e_pins = 1,
                 e_callback = cb\<rparr>"
  let ?r = "shard_insert (capacity c div length (shards c)) ?new (shards c ! ?i)"
  from assms have i: "?i < length (shards c)"
    by (simp add: cache_inv_def shard_of_less)
  note sh = cache_inv_shard [OF assms i]
  from sh(3) have d: "distinct (map e_id (rl (shards c ! ?i)))" by simp
  have "cache_inv hash ((put_shard c ?i (fst ?r, snd ?r))\<lparr>next_id := next_id c + 1\<rparr>)"
    using assms i
  proof (rule cache_inv_put_shard)
    show "mset (map e_id (rl (fst ?r) @ detached (fst ?r) @ snd ?r)) =
        mset (map e_id (rl (shards c ! ?i) @ detached (shards c ! ?i))) + mset [next_id c]"
      using shard_insert_ids [OF d, of "capacity c div length (shards c)" ?new] by simp
    show "distinct [next_id c]" by simp
    show "\<forall>x \<in> set [next_id c]. next_id c \<le> x \<and> x < next_id c + 1" by simp
    show "next_id c \<le> next_id c + 1" by simp
    show "distinct (map e_key (rl (fst ?r)))"
      using sh(1) by (rule shard_insert_keys)
    show "\<forall>e \<in> set (rl (fst ?r)). shard_of hash c (e_key e) = ?i"
      using sh(2) shard_insert_rl_subset [of "capacity c div length (shards c)" ?new "shards c ! ?i"]
      by auto
  qed
  then show ?thesis
    by (simp add: Cache_Insert_def Let_def)
qed

lemma shard_lookup_None:
  "snd (shard_lookup pol k s) = None \<Longrightarrow> shard_lookup pol k s = (s, None)"
  by (cases pol) (auto simp add: shard_lookup_def split: option.splits)

lemma shard_lookup_Some:
  assumes "shard_lookup pol k s = (s', Some e)"
  shows "e \<in> set (rl s)" and "e_key e = k" and "detached s' = detached s"
    and "pol = FIFO \<Longrightarrow> rl s' = map (\<lambda>x. if e_id x = e_id e then pin x else x) (rl s)"
    and "pol = LRU \<Longrightarrow> rl s' = remove_entry e (rl s) @ [pin e]"
  using assms
  by (cases pol; auto simp add: shard_lookup_def split: option.splits dest: find_key_Some)+

lemma shard_lookup_inv:
  assumes "shard_lookup pol k s = (s', Some e)"
    and "distinct (map e_id (rl s))" and "distinct (map e_key (rl s))"
  shows "mset (map e_id (rl s' @ detached s')) = mset (map e_id (rl s @ detached s))"
    and "distinct (map e_key (rl s'))"
    and "e_key ` set (rl s') \<subseteq> e_key ` set (rl s)"
proof -
  note l = shard_lookup_Some [OF assms(1)]
  show "mset (map e_id (rl s' @ detached s')) = mset (map e_id (rl s @ detached s))"
  proof (cases pol)
    case FIFO
    with l show ?thesis by simp
  next
    case LRU
    with l ids_remove_entry [OF assms(2) l(1)] show ?thesis by simp
  qed
  show "distinct (map e_key (rl s'))"
  proof (cases pol)
    case FIFO
    with l assms(3) show ?thesis by simp
  next
    case LRU
    with l keys_remove_entry [OF assms(3), of e] remove_entry_key_absent [OF assms(3) l(1)]
    show ?thesis by simp
  qed
  show "e_key ` set (rl s') \<subseteq> e_key ` set (rl s)"
  proof (cases pol)
    case FIFO
    have "e_key ` set (rl s') = set (map e_key (rl s'))" by simp
    also have "\<dots> = set (map e_key (rl s))"
      using l FIFO by simp
    finally show ?thesis by simp
  next
    case LRU
    with l show ?thesis
      by (auto simp add: set_remove_entry)
  qed
qed

lemma home_from_keys:
  assumes "\<forall>e \<in> set es. shard_of hash c (e_key e) = i" and "e_key ` set es' \<subseteq> e_key ` set es"
  shows "\<forall>e \<in> set es'. shard_of hash c (e_key e) = i"
proof
  fix e assume "e \<in> set es'"
  then have "e_key e \<in> e_key ` set es'" by (rule imageI)
  with assms(2) have "e_key e \<in> e_key ` set es" by (rule subsetD)
  then obtain x where "x \<in> set es" "e_key e = e_key x" by (rule imageE)
  with assms(1) show "shard_of hash c (e_key e) = i" by simp
qed

lemma cache_inv_Lookup:
  assumes "cache_inv hash c"
  shows "cache_inv hash (fst (Cache_Lookup hash c k))"
proof -
  let ?i = "shard_of hash c k"
  from assms have i: "?i < length (shards c)"
    by (simp add: cache_inv_def shard_of_less)
  note sh = cache_inv_shard [OF assms i]
  from sh(3) have d: "distinct (map e_id (rl (shards c ! ?i)))" by simp
  obtain s' r where sl: "shard_lookup (policy c) k (shards c ! ?i) = (s', r)"
    by (cases "shard_lookup (policy c) k (shards c ! ?i)")
  show ?thesis
  proof (cases r)
    case None
    with sl assms show ?thesis
      by (simp add: Cache_Lookup_def Let_def)
  next
    case (Some e)
    note li = shard_lookup_inv [OF sl [unfolded Some] d sh(1)]
    have "cache_inv hash (put_shard c ?i (s', []))"
      using assms i
    proof (rule cache_inv_put_shard_same)
      show "mset (map e_id (rl s' @ detached s' @ [])) =
          mset (map e_id (rl (shards c ! ?i) @ detached (shards c ! ?i)))"
        using li(1) by simp
      show "distinct (map e_key (rl s'))" by (rule li(2))
      show "\<forall>e \<in> set (rl s'). shard_of hash c (e_key e) = ?i"
        using sh(2) li(3) by (rule home_from_keys)
    qed
    with sl Some show ?thesis
      by (simp add: Cache_Lookup_def Let_def)
  qed
qed

lemma image_mset_id_cond [simp]:
  "image_mset e_id (image_mset (\<lambda>x. if P x then unpin x else x) M) = image_mset e_id M"
  "image_mset e_id (image_mset (\<lambda>x. if P x then pin x else x) M) = image_mset e_id M"
  by (induction M) simp_all

lemma shard_release_inv:
  assumes "shard_release i s = Some (s', f)" and "distinct (map e_id (rl s @ detached s))"
  shows "mset (map e_id (rl s' @ detached s' @ f)) = mset (map e_id (rl s @ detached s))"
    and "map e_key (rl s') = map e_key (rl s)"
    and "map e_id (rl s') = map e_id (rl s)"
proof -
  from assms(2) have dd: "distinct (map e_id (detached s))" by simp
  show "mset (map e_id (rl s' @ detached s' @ f)) = mset (map e_id (rl s @ detached s))"
  proof (cases "find (\<lambda>e. e_id e = i) (rl s)")
    case (Some e)
    with assms(1) show ?thesis
      by (auto simp add: shard_release_def split: if_splits)
  next
    case None
    show ?thesis
    proof (cases "find (\<lambda>e. e_id e = i) (detached s)")
      case n: None
      with None assms(1) show ?thesis
        by (simp add: shard_release_def)
    next
      case (Some e)
      then have e: "e \<in> set (detached s)"
        by (auto simp add: find_Some_iff)
      from None Some assms(1) ids_remove_entry [OF dd e] show ?thesis
        by (auto simp add: shard_release_def split: if_splits)
    qed
  qed
  show "map e_key (rl s') = map e_key (rl s)"
    using assms(1)
    by (auto simp add: shard_release_def split: option.splits if_splits)
  show "map e_id (rl s') = map e_id (rl s)"
    using assms(1)
    by (auto simp add: shard_release_def split: option.splits if_splits)
qed

lemma cache_inv_Release:
  assumes "cache_inv hash c" and "Cache_Release c h = Some c'"
  shows "cache_inv hash c'"
proof -
  from assms(2) have i: "h_shard h < length (shards c)"
    by (simp add: Cache_Release_def split: if_splits)
  with assms(2) obtain s' f where r: "shard_release (h_entry h) (shards c ! h_shard h) = Some (s', f)"
    and c': "c' = put_shard c (h_shard h) (s', f)"
    by (auto simp add: Cache_Release_def split: option.splits)
  note sh = cache_inv_shard [OF assms(1) i]
  note ri = shard_release_inv [OF r sh(3)]
  have "cache_inv hash (put_shard c (h_shard h) (s', f))"
    using assms(1) i
  proof (rule cache_inv_put_shard_same)
    show "mset (map e_id (rl s' @ detached s' @ f)) =
        mset (map e_id (rl (shards c ! h_shard h) @ detached (shards c ! h_shard h)))"
      by (rule ri(1))
    show "distinct (map e_key (rl s'))"
      using sh(1) ri(2) by simp
    have "e_key ` set (rl s') = set (map e_key (rl s'))" by simp
    also have "\<dots> = e_key ` set (rl (shards c ! h_shard h))"
      unfolding ri(2) by simp
    finally have "e_key ` set (rl s') \<subseteq> e_key ` set (rl (shards c ! h_shard h))"
      by simp
    with sh(2) show "\<forall>e \<in> set (rl s'). shard_of hash c (e_key e) = h_shard h"
      by (rule home_from_keys)
  qed
  with c' show ?thesis by simp
qed

subsection \<open>Invalidation keeps the invariant\<close>

lemma invalidate_loop_stay_subset: "set (fst (invalidate_loop ctl v i es)) \<subseteq> set es"
  by (induction es arbitrary: v i) (auto simp add: split_beta)

lemma invalidate_loop_stay_keys:
  "distinct (map e_key es) \<Longrightarrow> distinct (map e_key (fst (invalidate_loop ctl v i es)))"
proof (induction es arbitrary: v i)
  case Nil
  then show ?case by simp
next
  case (Cons e es)
  then show ?case
    using invalidate_loop_stay_subset [of ctl "v + 1" i es]
    by (auto simp add: split_beta)
qed

lemma invalidate_loop_stay_sorted:
  "sorted_wrt (<) (map e_id es) \<Longrightarrow> sorted_wrt (<) (map e_id (fst (invalidate_loop ctl v i es)))"
proof (induction es arbitrary: v i)
  case Nil
  then show ?case by simp
next
  case (Cons e es)
  then show ?case
    using invalidate_loop_stay_subset [of ctl "v + 1" i es]
    by (auto simp add: split_beta)
qed

lemma mset_concat_parts:
  "(\<And>x. x \<in> set xs \<Longrightarrow> mset (A x) + mset (B x) = mset (C x)) \<Longrightarrow>
     mset (concat (map A xs)) + mset (concat (map B xs)) = mset (concat (map C xs))"
proof (induction xs)
  case Nil
  then show ?case by simp
next
  case (Cons x xs)
  from Cons.prems have "mset (A x) + mset (B x) = mset (C x)" by simp
  moreover from Cons have "mset (concat (map A xs)) + mset (concat (map B xs)) =
      mset (concat (map C xs))"
    by simp
  ultimately show ?case
    by (simp add: ac_simps)
qed

lemma cache_inv_shards_distinct:
  assumes "cache_inv hash c" and "s \<in> set (shards c)"
  shows "distinct (map e_id (rl s))" and "distinct (map e_key (rl s))"
proof -
  from assms(2) obtain i where i: "i < length (shards c)" "shards c ! i = s"
    by (auto simp add: in_set_conv_nth)
  from cache_inv_shard [OF assms(1) i(1)] i(2)
  show "distinct (map e_id (rl s))" and "distinct (map e_key (rl s))"
    by simp_all
qed

lemma Cache_Invalidate_eq:
  assumes "cache_inv hash c"
  shows "Cache_Invalidate c ctl =
     (c\<lparr>shards := map (\<lambda>s. s\<lparr>rl := fst (invalidate_loop ctl 0 0 (rl s)),
            detached := detached s @
              filter (\<lambda>e. e_pins e \<noteq> 0) (snd (invalidate_loop ctl 0 0 (rl s)))\<rparr>) (shards c),
        freed := freed c @
          concat (map (\<lambda>s. filter (\<lambda>e. e_pins e = 0) (snd (invalidate_loop ctl 0 0 (rl s))))
            (shards c))\<rparr>,
      sum_list (map (\<lambda>s. length (snd (invalidate_loop ctl 0 0 (rl s)))) (shards c)))"
proof -
  have rs: "map (shard_invalidate ctl) (shards c) =
      map (\<lambda>s. ((s\<lparr>rl := fst (invalidate_loop ctl 0 0 (rl s)),
            detached := detached s @
              filter (\<lambda>e. e_pins e \<noteq> 0) (snd (invalidate_loop ctl 0 0 (rl s)))\<rparr>,
          filter (\<lambda>e. e_pins e = 0) (snd (invalidate_loop ctl 0 0 (rl s)))),
         length (snd (invalidate_loop ctl 0 0 (rl s))))) (shards c)"
  proof (rule map_cong [OF refl])
    fix s assume "s \<in> set (shards c)"
    with assms have "distinct (map e_id (rl s))"
      by (rule cache_inv_shards_distinct)
    then show "shard_invalidate ctl s =
      ((s\<lparr>rl := fst (invalidate_loop ctl 0 0 (rl s)),
            detached := detached s @
              filter (\<lambda>e. e_pins e \<noteq> 0) (snd (invalidate_loop ctl 0 0 (rl s)))\<rparr>,
          filter (\<lambda>e. e_pins e = 0) (snd (invalidate_loop ctl 0 0 (rl s)))),
         length (snd (invalidate_loop ctl 0 0 (rl s))))"
      by (rule shard_invalidate_result)
  qed
  show ?thesis
    unfolding Cache_Invalidate_def Let_def rs by (simp add: comp_def)
qed

lemma cache_inv_Invalidate:
  assumes "cache_inv hash c"
  shows "cache_inv hash (fst (Cache_Invalidate c ctl))"
proof -
  define stay where "stay s = fst (invalidate_loop ctl 0 0 (rl s))" for s :: "('a, 'b) Shard"
  define gone where "gone s = snd (invalidate_loop ctl 0 0 (rl s))" for s :: "('a, 'b) Shard"
  define c' where "c' = c\<lparr>shards := map (\<lambda>s. s\<lparr>rl := stay s,
            detached := detached s @ filter (\<lambda>e. e_pins e \<noteq> 0) (gone s)\<rparr>) (shards c),
        freed := freed c @ concat (map (\<lambda>s. filter (\<lambda>e. e_pins e = 0) (gone s)) (shards c))\<rparr>"
  have eq: "fst (Cache_Invalidate c ctl) = c'"
    by (simp add: Cache_Invalidate_eq [OF assms] c'_def stay_def gone_def)
  have part: "mset (stay s @ detached s @ filter (\<lambda>e. e_pins e \<noteq> 0) (gone s)) +
      mset (filter (\<lambda>e. e_pins e = 0) (gone s)) = mset (rl s @ detached s)" for s
  proof -
    have "mset (filter (\<lambda>e. e_pins e \<noteq> 0) (gone s)) + mset (filter (\<lambda>e. e_pins e = 0) (gone s))
        = mset (gone s)"
      by (induction "gone s") simp_all
    moreover have "mset (stay s) + mset (gone s) = mset (rl s)"
      unfolding stay_def gone_def by (rule invalidate_loop_mset)
    ultimately show ?thesis
      by (simp add: ac_simps)
  qed
  have "mset (concat (map (\<lambda>s. stay s @ detached s @ filter (\<lambda>e. e_pins e \<noteq> 0) (gone s)) (shards c)))
      + mset (concat (map (\<lambda>s. filter (\<lambda>e. e_pins e = 0) (gone s)) (shards c)))
      = mset (concat (map (\<lambda>s. rl s @ detached s) (shards c)))"
    by (rule mset_concat_parts) (rule part)
  then have "mset (all_entries c') = mset (all_entries c)"
    by (simp add: all_entries_def c'_def comp_def ac_simps)
  then have m: "mset (map e_id (all_entries c')) = mset (map e_id (all_entries c))"
    by simp
  from assms have "distinct (map e_id (all_entries c))"
    by (simp add: cache_inv_def)
  with m have d: "distinct (map e_id (all_entries c'))"
    by (metis mset_eq_imp_distinct_iff)
  from m have "set (map e_id (all_entries c')) = set (map e_id (all_entries c))"
    by (rule mset_eq_setD)
  moreover from assms have "\<forall>x \<in> set (map e_id (all_entries c)). x < next_id c"
    by (simp add: cache_inv_def)
  ultimately have "\<forall>x \<in> set (map e_id (all_entries c')). x < next_id c"
    by simp
  then have lt: "\<forall>e \<in> set (all_entries c'). e_id e < next_id c'"
    by (simp add: c'_def)
  have len: "length (shards c') = length (shards c)"
    by (simp add: c'_def)
  have sh: "\<forall>j < length (shards c').
      distinct (map e_key (rl (shards c' ! j))) \<and>
      (\<forall>e \<in> set (rl (shards c' ! j)). shard_of hash c' (e_key e) = j)"
  proof (intro allI impI)
    fix j assume "j < length (shards c')"
    with len have j: "j < length (shards c)" by simp
    then have rl: "rl (shards c' ! j) = stay (shards c ! j)"
      by (simp add: c'_def)
    note shj = cache_inv_shard [OF assms j]
    have so: "shard_of hash c' k = shard_of hash c k" for k
      by (simp add: shard_of_def len)
    have "distinct (map e_key (stay (shards c ! j)))"
      unfolding stay_def using shj(1) by (rule invalidate_loop_stay_keys)
    moreover have "set (stay (shards c ! j)) \<subseteq> set (rl (shards c ! j))"
      unfolding stay_def by (rule invalidate_loop_stay_subset)
    ultimately show "distinct (map e_key (rl (shards c' ! j))) \<and>
      (\<forall>e \<in> set (rl (shards c' ! j)). shard_of hash c' (e_key e) = j)"
      using shj(2) by (auto simp add: rl so)
  qed
  from assms len have "0 < length (shards c')"
    by (simp add: cache_inv_def)
  with sh d lt have "cache_inv hash c'"
    unfolding cache_inv_def by simp
  with eq show ?thesis by simp
qed

lemma cache_inv_apply_op:
  assumes "cache_inv hash c"
  shows "cache_inv hash (apply_op hash c op)"
proof (cases op)
  case (Op_Insert k v charge)
  with assms show ?thesis by (simp add: apply_op_def cache_inv_Insert)
next
  case (Op_Lookup k)
  with assms show ?thesis by (simp add: apply_op_def cache_inv_Lookup)
next
  case (Op_Erase k)
  with assms show ?thesis by (simp add: apply_op_def cache_inv_Erase)
next
  case (Op_Release h)
  with assms show ?thesis
    by (auto simp add: apply_op_def split: option.splits intro: cache_inv_Release)
next
  case (Op_Invalidate ctl)
  with assms show ?thesis by (simp add: apply_op_def cache_inv_Invalidate)
qed

lemma cache_inv_run:
  "cache_inv hash c \<Longrightarrow> cache_inv hash (run hash c ops)"
  unfolding run_def by (induction ops arbitrary: c) (simp_all add: cache_inv_apply_op)

subsection \<open>Erasing a key that is not in the cache\<close>

lemma put_shard_same: "put_shard c i (shards c ! i, []) = c"
  by (simp add: put_shard_def)

lemma Cache_Lookup_miss:
  "(snd (Cache_Lookup hash c k) = None) =
     (find (\<lambda>e. e_key e = k) (rl (shards c ! shard_of hash c k)) = None)"
  by (cases "policy c")
    (auto simp add: Cache_Lookup_def Let_def shard_lookup_def split: option.splits)

lemma Cache_Erase_absent:
  assumes "snd (Cache_Lookup hash c k) = None"
  shows "Cache_Erase hash c k = c"
  using assms
  by (simp add: Cache_Lookup_miss Cache_Erase_def Let_def shard_erase_def put_shard_same)

lemma Cache_Erase_then_miss:
  assumes "cache_inv hash c"
  shows "snd (Cache_Lookup hash (Cache_Erase hash c k) k) = None"
proof -
  let ?i = "shard_of hash c k"
  from assms have i: "?i < length (shards c)"
    by (simp add: cache_inv_def shard_of_less)
  from cache_inv_shard(1) [OF assms i]
  have "k \<notin> e_key ` set (rl (fst (shard_erase k (shards c ! ?i))))"
    by (rule shard_erase_key_absent)
  then have "find (\<lambda>e. e_key e = k) (rl (fst (shard_erase k (shards c ! ?i)))) = None"
    by (simp add: find_key_None)
  moreover have "shard_of hash (Cache_Erase hash c k) k = ?i"
    by (simp add: Cache_Erase_def Let_def)
  moreover have "shards (Cache_Erase hash c k) ! ?i = fst (shard_erase k (shards c ! ?i))"
    using i by (simp add: Cache_Erase_def Let_def put_shard_def)
  ultimately show ?thesis
    by (simp add: Cache_Lookup_miss)
qed

text \<open>Claim C10. In every state that a sequence of operations reaches from a new cache,
  erasing a key that a lookup does not find changes nothing: the cache stays as it is, so
  no eviction callback fires and every lookup returns what it returned before. A second
  erase of a key is such an erase.\<close>

theorem Erase_absent_is_noop:
  assumes "0 < n"
  shows "let c = run hash (new_Cache pol cap n) ops in
     (snd (Cache_Lookup hash c k) = None \<longrightarrow>
        Cache_Erase hash c k = c \<and>
        evicted (Cache_Erase hash c k) = evicted c \<and>
        (\<forall>k'. Cache_Lookup hash (Cache_Erase hash c k) k' = Cache_Lookup hash c k')) \<and>
     snd (Cache_Lookup hash (Cache_Erase hash c k) k) = None \<and>
     Cache_Erase hash (Cache_Erase hash c k) k = Cache_Erase hash c k \<and>
     evicted (Cache_Erase hash (Cache_Erase hash c k) k) = evicted (Cache_Erase hash c k) \<and>
     (\<forall>k'. Cache_Lookup hash (Cache_Erase hash (Cache_Erase hash c k) k) k' =
           Cache_Lookup hash (Cache_Erase hash c k) k')"
proof -
  define c where "c = run hash (new_Cache pol cap n :: ('a, 'b) Cache) ops"
  from assms have inv: "cache_inv hash c"
    unfolding c_def by (intro cache_inv_run cache_inv_new_Cache)
  have a: "snd (Cache_Lookup hash c k) = None \<longrightarrow>
        Cache_Erase hash c k = c \<and>
        evicted (Cache_Erase hash c k) = evicted c \<and>
        (\<forall>k'. Cache_Lookup hash (Cache_Erase hash c k) k' = Cache_Lookup hash c k')"
    by (simp add: Cache_Erase_absent)
  have b: "snd (Cache_Lookup hash (Cache_Erase hash c k) k) = None"
    using inv by (rule Cache_Erase_then_miss)
  then have "Cache_Erase hash (Cache_Erase hash c k) k = Cache_Erase hash c k"
    by (rule Cache_Erase_absent)
  with a b show ?thesis
    unfolding c_def [symmetric] Let_def by simp
qed

theorem Erase_absent_is_noop_witness:
  "snd (Cache_Lookup (\<lambda>k. k) (run (\<lambda>k. k) (new_Cache LRU 10 2)
      [Op_Insert (100 :: nat) (101 :: nat) 1, Op_Release \<lparr>h_shard = 0, h_entry = 0\<rparr>,
       Op_Insert 200 201 1, Op_Release \<lparr>h_shard = 0, h_entry = 1\<rparr>, Op_Erase 100]) 100) = None \<and>
   Cache_Erase (\<lambda>k. k) (run (\<lambda>k. k) (new_Cache LRU 10 2)
      [Op_Insert (100 :: nat) (101 :: nat) 1, Op_Release \<lparr>h_shard = 0, h_entry = 0\<rparr>,
       Op_Insert 200 201 1, Op_Release \<lparr>h_shard = 0, h_entry = 1\<rparr>, Op_Erase 100]) 100 =
     run (\<lambda>k. k) (new_Cache LRU 10 2)
      [Op_Insert (100 :: nat) (101 :: nat) 1, Op_Release \<lparr>h_shard = 0, h_entry = 0\<rparr>,
       Op_Insert 200 201 1, Op_Release \<lparr>h_shard = 0, h_entry = 1\<rparr>, Op_Erase 100] \<and>
   evicted (run (\<lambda>k. k) (new_Cache LRU 10 2)
      [Op_Insert (100 :: nat) (101 :: nat) 1, Op_Release \<lparr>h_shard = 0, h_entry = 0\<rparr>,
       Op_Insert 200 201 1, Op_Release \<lparr>h_shard = 0, h_entry = 1\<rparr>, Op_Erase 100]) = [(100, 101)]"
proof -
  let ?ops = "[Op_Insert (100 :: nat) (101 :: nat) 1, Op_Release \<lparr>h_shard = 0, h_entry = 0\<rparr>,
       Op_Insert 200 201 1, Op_Release \<lparr>h_shard = 0, h_entry = 1\<rparr>, Op_Erase 100]"
  have z: "0 < (2 :: nat)" by simp
  have miss: "snd (Cache_Lookup (\<lambda>k. k) (run (\<lambda>k. k) (new_Cache LRU 10 2) ?ops) 100) = None"
    by code_simp
  have ev: "evicted (run (\<lambda>k. k) (new_Cache LRU 10 2) ?ops) = [(100, 101)]"
    by code_simp
  from Erase_absent_is_noop [OF z, of "\<lambda>k. k" LRU 10 ?ops 100, unfolded Let_def] miss
  have "Cache_Erase (\<lambda>k. k) (run (\<lambda>k. k) (new_Cache LRU 10 2) ?ops) 100 =
      run (\<lambda>k. k) (new_Cache LRU 10 2) ?ops"
    by blast
  with miss ev show ?thesis by blast
qed

subsection \<open>Which entries an operation frees\<close>

lemma all_entries_live: "all_entries c = live c @ freed c"
  by (simp add: all_entries_def live_def)

lemma shard_live:
  assumes "i < length (shards c)"
  shows "set (rl (shards c ! i)) \<subseteq> set (live c)" and "set (detached (shards c ! i)) \<subseteq> set (live c)"
proof -
  from assms have "shards c ! i \<in> set (shards c)" by simp
  then show "set (rl (shards c ! i)) \<subseteq> set (live c)"
    and "set (detached (shards c ! i)) \<subseteq> set (live c)"
    by (auto simp add: live_def)
qed

lemma freed_put_shard [simp]: "freed (put_shard c i r) = freed c @ snd r"
  by (simp add: put_shard_def)









subsection \<open>Entries that a handle pins\<close>






subsection \<open>Pin counts and live handles\<close>

lemma e_pins_pin [simp]: "e_pins (pin e) = e_pins e + 1" "e_pins (unpin e) = e_pins e - 1"
  by (simp_all add: pin_def unpin_def)














lemma handles_Nil [simp]: "handles [] i x = 0"
  by (simp add: handles_def)






lemma handles_inv_shards:
  "shards c' = shards c \<Longrightarrow> handles_inv c' H = handles_inv c H"
  by (simp add: handles_inv_def)






















subsection \<open>The FIFO policy\<close>

lemma insertion_ordered_put_shard:
  assumes "insertion_ordered c" and "sorted_wrt (<) (map e_id (rl s'))"
  shows "insertion_ordered (put_shard c i (s', f))"
proof -
  have "set ((shards c)[i := s']) \<subseteq> insert s' (set (shards c))"
    by (rule set_update_subset_insert)
  with assms show ?thesis
    by (auto simp add: insertion_ordered_def put_shard_def)
qed

lemma insertion_ordered_shard:
  "insertion_ordered c \<Longrightarrow> i < length (shards c) \<Longrightarrow> sorted_wrt (<) (map e_id (rl (shards c ! i)))"
  by (simp add: insertion_ordered_def)

lemma sorted_shard_erase:
  "sorted_wrt (<) (map e_id (rl s)) \<Longrightarrow> sorted_wrt (<) (map e_id (rl (fst (shard_erase k s))))"
  by (simp add: rl_shard_erase sorted_remove_entry split: option.splits)

lemma cache_inv_rl_ids:
  assumes "cache_inv hash c" and "i < length (shards c)" and "x \<in> set (rl (shards c ! i))"
  shows "e_id x < next_id c"
proof -
  from shard_live(1) [OF assms(2)] assms(3) have "x \<in> set (all_entries c)"
    by (auto simp add: all_entries_live)
  with assms(1) show ?thesis
    by (simp add: cache_inv_def)
qed

lemma sorted_before_insert:
  assumes "cache_inv hash c" and "insertion_ordered c" and "i < length (shards c)"
    and "e_id new = next_id c"
  shows "sorted_wrt (<) (map e_id (rl (fst (shard_erase k (shards c ! i))) @ [new]))"
proof -
  from assms(2,3) have "sorted_wrt (<) (map e_id (rl (shards c ! i)))"
    by (rule insertion_ordered_shard)
  then have "sorted_wrt (<) (map e_id (rl (fst (shard_erase k (shards c ! i)))))"
    by (rule sorted_shard_erase)
  moreover have "\<forall>x \<in> set (rl (fst (shard_erase k (shards c ! i)))). e_id x < e_id new"
    using set_rl_shard_erase [of k "shards c ! i"] cache_inv_rl_ids [OF assms(1,3)] assms(4)
    by auto
  ultimately show ?thesis
    by (simp add: sorted_wrt_append)
qed

lemma insertion_ordered_Insert:
  assumes "cache_inv hash c" and "insertion_ordered c"
  shows "insertion_ordered (fst (Cache_Insert hash c k v charge cb))"
proof -
  let ?i = "shard_of hash c k"
  let ?new = "\<lparr>e_id = next_id c, e_key = k, e_value = v, e_charge = charge, e_pins = 1,
                 e_callback = cb\<rparr>"
  let ?r = "shard_insert (capacity c div length (shards c)) ?new (shards c ! ?i)"
  from assms(1) have i: "?i < length (shards c)"
    by (simp add: cache_inv_def shard_of_less)
  have "sorted_wrt (<) (map e_id (rl (fst (shard_erase k (shards c ! ?i))) @ [?new]))"
    using assms i by (rule sorted_before_insert) simp
  then have "sorted_wrt (<) (map e_id (rl (fst ?r)))"
    by (simp add: shard_insert_eq evict_kept_sorted)
  with assms(2) have "insertion_ordered (put_shard c ?i (fst ?r, snd ?r))"
    by (rule insertion_ordered_put_shard)
  then show ?thesis
    by (simp add: Cache_Insert_def Let_def insertion_ordered_def)
qed

lemma FIFO_Lookup_hit:
  assumes "policy c = FIFO" and "Cache_Lookup hash c k = (c', Some (h, v))"
  shows "h_shard h = shard_of hash c k"
    and "c' = c\<lparr>shards := (shards c)[shard_of hash c k :=
            (shards c ! shard_of hash c k)\<lparr>rl :=
               map (\<lambda>x. if e_id x = h_entry h then pin x else x)
                 (rl (shards c ! shard_of hash c k))\<rparr>]\<rparr>"
  using assms
  by (auto simp add: Cache_Lookup_def Let_def shard_lookup_def put_shard_def split: option.splits)

lemma FIFO_Lookup_order:
  assumes "policy c = FIFO"
  shows "map (\<lambda>s. map e_id (rl s)) (shards (fst (Cache_Lookup hash c k))) =
     map (\<lambda>s. map e_id (rl s)) (shards c)"
proof (cases "snd (Cache_Lookup hash c k)")
  case None
  then have "fst (Cache_Lookup hash c k) = c"
    by (auto simp add: Cache_Lookup_def Let_def split: prod.splits option.splits)
  then show ?thesis by simp
next
  case (Some hv)
  then obtain c' h v where l: "Cache_Lookup hash c k = (c', Some (h, v))"
    by (cases "Cache_Lookup hash c k"; cases hv) auto
  note FIFO_Lookup_hit(2) [OF assms l]
  then have "shards c' = (shards c)[shard_of hash c k :=
            (shards c ! shard_of hash c k)\<lparr>rl :=
               map (\<lambda>x. if e_id x = h_entry h then pin x else x)
                 (rl (shards c ! shard_of hash c k))\<rparr>]"
    by simp
  then have "map (\<lambda>s. map e_id (rl s)) (shards c') =
      (map (\<lambda>s. map e_id (rl s)) (shards c))[shard_of hash c k :=
         map e_id (rl (shards c ! shard_of hash c k))]"
    by (simp add: map_update)
  also have "\<dots> = map (\<lambda>s. map e_id (rl s)) (shards c)"
    by (cases "shard_of hash c k < length (shards c)")
      (simp_all add: list_update_same_conv list_update_beyond)
  finally show ?thesis
    using l by simp
qed

lemma insertion_ordered_Lookup:
  assumes "policy c = FIFO" and "insertion_ordered c"
  shows "insertion_ordered (fst (Cache_Lookup hash c k))"
proof -
  have "(\<forall>s \<in> set (shards (fst (Cache_Lookup hash c k))). sorted_wrt (<) (map e_id (rl s))) =
      (\<forall>ids \<in> set (map (\<lambda>s. map e_id (rl s)) (shards (fst (Cache_Lookup hash c k)))).
         sorted_wrt (<) ids)"
    by simp
  also have "\<dots> = (\<forall>ids \<in> set (map (\<lambda>s. map e_id (rl s)) (shards c)). sorted_wrt (<) ids)"
    by (simp only: FIFO_Lookup_order [OF assms(1)])
  also have "\<dots> = (\<forall>s \<in> set (shards c). sorted_wrt (<) (map e_id (rl s)))"
    by simp
  finally show ?thesis
    using assms(2) by (simp add: insertion_ordered_def)
qed

lemma insertion_ordered_Erase:
  assumes "cache_inv hash c" and "insertion_ordered c"
  shows "insertion_ordered (Cache_Erase hash c k)"
proof -
  let ?i = "shard_of hash c k"
  from assms(1) have i: "?i < length (shards c)"
    by (simp add: cache_inv_def shard_of_less)
  from assms(2) i have "sorted_wrt (<) (map e_id (rl (shards c ! ?i)))"
    by (rule insertion_ordered_shard)
  then have "sorted_wrt (<) (map e_id (rl (fst (shard_erase k (shards c ! ?i)))))"
    by (rule sorted_shard_erase)
  with assms(2) have "insertion_ordered (put_shard c ?i (fst (shard_erase k (shards c ! ?i)),
      snd (shard_erase k (shards c ! ?i))))"
    by (rule insertion_ordered_put_shard)
  then show ?thesis
    by (simp add: Cache_Erase_def Let_def)
qed

lemma insertion_ordered_Release:
  assumes "cache_inv hash c" and "insertion_ordered c" and "Cache_Release c h = Some c'"
  shows "insertion_ordered c'"
proof -
  from assms(3) have i: "h_shard h < length (shards c)"
    by (simp add: Cache_Release_def split: if_splits)
  with assms(3) obtain s' f where r: "shard_release (h_entry h) (shards c ! h_shard h) = Some (s', f)"
    and c': "c' = put_shard c (h_shard h) (s', f)"
    by (auto simp add: Cache_Release_def split: option.splits)
  from shard_release_inv(3) [OF r cache_inv_shard(3) [OF assms(1) i]]
    insertion_ordered_shard [OF assms(2) i]
  have "sorted_wrt (<) (map e_id (rl s'))" by simp
  with assms(2) show ?thesis
    unfolding c' by (rule insertion_ordered_put_shard)
qed

lemma insertion_ordered_Invalidate:
  assumes "cache_inv hash c" and "insertion_ordered c"
  shows "insertion_ordered (fst (Cache_Invalidate c ctl))"
  using assms(2)
  by (auto simp add: Cache_Invalidate_eq [OF assms(1)] insertion_ordered_def
      intro: invalidate_loop_stay_sorted)

lemma policy_apply_op [simp]: "policy (apply_op hash c op) = policy c"
  by (cases op)
    (auto simp add: apply_op_def Cache_Insert_def Cache_Lookup_def Cache_Erase_def
      Cache_Release_def Cache_Invalidate_def put_shard_def Let_def
      split: option.splits prod.splits if_splits)

lemma insertion_ordered_apply_op:
  assumes "policy c = FIFO" and "cache_inv hash c" and "insertion_ordered c"
  shows "insertion_ordered (apply_op hash c op)"
proof (cases op)
  case (Op_Insert k v charge)
  with assms show ?thesis by (simp add: apply_op_def insertion_ordered_Insert)
next
  case (Op_Lookup k)
  with assms show ?thesis by (simp add: apply_op_def insertion_ordered_Lookup)
next
  case (Op_Erase k)
  with assms show ?thesis by (simp add: apply_op_def insertion_ordered_Erase)
next
  case (Op_Release h)
  with assms show ?thesis
    by (auto simp add: apply_op_def split: option.splits intro: insertion_ordered_Release)
next
  case (Op_Invalidate ctl)
  with assms show ?thesis by (simp add: apply_op_def insertion_ordered_Invalidate)
qed

lemma FIFO_run:
  "policy c = FIFO \<Longrightarrow> cache_inv hash c \<Longrightarrow> insertion_ordered c \<Longrightarrow>
     policy (run hash c ops) = FIFO \<and> insertion_ordered (run hash c ops)"
  unfolding run_def
  by (induction ops arbitrary: c) (simp_all add: cache_inv_apply_op insertion_ordered_apply_op)

lemma usage_remove_entry: "usage (remove_entry e es) \<le> usage es"
  by (induction es) (simp_all add: usage_def remove_entry_def)

lemma usage_shard_erase: "usage (rl (fst (shard_erase k s))) \<le> usage (rl s)"
  by (simp add: rl_shard_erase usage_remove_entry split: option.splits)

lemma evict_no_pressure: "u \<le> cap \<Longrightarrow> snd (evict cap u es) = []"
  by (cases es) simp_all

lemma usage_mset: "mset xs = mset ys \<Longrightarrow> usage xs = usage ys"
  unfolding usage_def by (metis mset_map sum_mset_sum_list)

lemma usage_append: "usage (xs @ ys) = usage xs + usage ys"
  by (simp add: usage_def)

lemma evict_usage: "usage (fst (evict cap u es)) + usage (snd (evict cap u es)) = usage es"
proof -
  have "mset (fst (evict cap u es) @ snd (evict cap u es)) = mset es"
    by (simp add: evict_mset)
  then have "usage (fst (evict cap u es) @ snd (evict cap u es)) = usage es"
    by (rule usage_mset)
  then show ?thesis by (simp add: usage_append)
qed

lemma evict_left:
  "u - usage (snd (evict cap u es)) \<le> cap \<or> (\<forall>y \<in> set (fst (evict cap u es)). 0 < e_pins y)"
proof (induction es arbitrary: u)
  case Nil
  then show ?case by simp
next
  case (Cons e es)
  show ?case
  proof (cases "u \<le> cap")
    case True
    then show ?thesis by (simp add: usage_def)
  next
    case False
    show ?thesis
    proof (cases "0 < e_pins e")
      case True
      with False Cons [of u] show ?thesis
        by (auto simp add: split_beta)
    next
      case False
      with \<open>\<not> u \<le> cap\<close> Cons [of "u - e_charge e"] show ?thesis
        by (auto simp add: split_beta usage_def)
    qed
  qed
qed

lemma evict_relieves:
  "usage (fst (evict cap (usage es) es)) \<le> cap \<or>
   (\<forall>y \<in> set (fst (evict cap (usage es) es)). 0 < e_pins y)"
  using evict_left [of "usage es" cap es] evict_usage [of cap "usage es" es]
  by auto

lemma shard_erase_frees_key: "x \<in> set (snd (shard_erase k s)) \<Longrightarrow> e_key x = k"
  by (auto simp add: shard_erase_def detach_def split: option.splits if_splits dest: find_key_Some)

lemma FIFO_Insert_evicts:
  assumes "cache_inv hash c" and "insertion_ordered c"
  shows "\<exists>f1 victims.
     freed (fst (Cache_Insert hash c k v charge cb)) = freed c @ f1 @ victims \<and>
     (\<forall>x \<in> set f1. e_key x = k) \<and>
     (\<forall>x \<in> set victims.
        x \<in> set (rl (shards c ! shard_of hash c k)) \<and> e_pins x = 0 \<and>
        (\<forall>y \<in> set (rl (shards (fst (Cache_Insert hash c k v charge cb)) ! shard_of hash c k)).
           e_pins y = 0 \<longrightarrow> e_id x < e_id y)) \<and>
     (usage (rl (shards c ! shard_of hash c k)) + charge \<le> capacity c div length (shards c) \<longrightarrow>
        victims = []) \<and>
     (usage (rl (shards (fst (Cache_Insert hash c k v charge cb)) ! shard_of hash c k))
        \<le> capacity c div length (shards c) \<or>
      (\<forall>y \<in> set (rl (shards (fst (Cache_Insert hash c k v charge cb)) ! shard_of hash c k)).
         0 < e_pins y))"
proof -
  let ?i = "shard_of hash c k"
  let ?cap = "capacity c div length (shards c)"
  let ?new = "\<lparr>e_id = next_id c, e_key = k, e_value = v, e_charge = charge, e_pins = 1,
                 e_callback = cb\<rparr>"
  let ?s1 = "fst (shard_erase k (shards c ! ?i))"
  let ?f1 = "snd (shard_erase k (shards c ! ?i))"
  let ?es = "rl ?s1 @ [?new]"
  let ?ev = "evict ?cap (usage ?es) ?es"
  let ?c' = "fst (Cache_Insert hash c k v charge cb)"
  from assms(1) have i: "?i < length (shards c)"
    by (simp add: cache_inv_def shard_of_less)
  have srt: "sorted_wrt (<) (map e_id ?es)"
    using assms i by (rule sorted_before_insert) simp
  have fr: "freed ?c' = freed c @ ?f1 @ snd ?ev"
    by (simp add: Cache_Insert_def Let_def shard_insert_eq)
  have rl': "rl (shards ?c' ! ?i) = fst ?ev"
    using i by (simp add: Cache_Insert_def Let_def shard_insert_eq put_shard_def)
  have k: "\<forall>x \<in> set ?f1. e_key x = k"
    by (auto dest: shard_erase_frees_key)
  have v: "\<forall>x \<in> set (snd ?ev).
        x \<in> set (rl (shards c ! ?i)) \<and> e_pins x = 0 \<and>
        (\<forall>y \<in> set (rl (shards ?c' ! ?i)). e_pins y = 0 \<longrightarrow> e_id x < e_id y)"
  proof (intro ballI conjI impI)
    fix x assume x: "x \<in> set (snd ?ev)"
    then show p: "e_pins x = 0" by (rule evict_victims_unpinned)
    from x evict_victims_subset [of ?cap "usage ?es" ?es] have "x \<in> set ?es" by blast
    with p have "x \<in> set (rl ?s1)" by auto
    with set_rl_shard_erase [of k "shards c ! ?i"] show "x \<in> set (rl (shards c ! ?i))" by blast
    fix y assume "y \<in> set (rl (shards ?c' ! ?i))" and "e_pins y = 0"
    then have "y \<in> set (fst ?ev)" by (simp add: rl')
    with srt x show "e_id x < e_id y"
      using \<open>e_pins y = 0\<close> by (rule evict_victims_before_kept)
  qed
  have u: "usage (rl (shards c ! ?i)) + charge \<le> ?cap \<longrightarrow> snd ?ev = []"
  proof
    assume a: "usage (rl (shards c ! ?i)) + charge \<le> ?cap"
    have "usage ?es = usage (rl ?s1) + charge"
      by (simp add: usage_def)
    with usage_shard_erase [of k "shards c ! ?i"] a have "usage ?es \<le> ?cap" by simp
    then show "snd ?ev = []" by (rule evict_no_pressure)
  qed
  have r: "usage (rl (shards ?c' ! ?i)) \<le> ?cap \<or> (\<forall>y \<in> set (rl (shards ?c' ! ?i)). 0 < e_pins y)"
    unfolding rl' by (rule evict_relieves)
  from fr k v u r show ?thesis by blast
qed

subsection \<open>How far the eviction pass goes\<close>

lemma scanned_le: "scanned cap u es \<le> length es"
  by (induction es arbitrary: u) simp_all

lemma evict_scanned:
  "evict cap u es =
     (filter (\<lambda>e. 0 < e_pins e) (take (scanned cap u es) es) @ drop (scanned cap u es) es,
      filter (\<lambda>e. e_pins e = 0) (take (scanned cap u es) es))"
  by (induction es arbitrary: u) simp_all

lemma usage_simps: "usage [] = 0" "usage (e # es) = e_charge e + usage es"
  by (simp_all add: usage_def)

lemma scanned_pressure:
  "j < scanned cap u es \<Longrightarrow> cap < u - usage (filter (\<lambda>e. e_pins e = 0) (take j es))"
proof (induction es arbitrary: u j)
  case Nil
  then show ?case by simp
next
  case (Cons e es)
  from Cons.prems have u: "\<not> u \<le> cap"
    by (auto split: if_splits)
  show ?case
  proof (cases j)
    case 0
    with u show ?thesis by (simp add: usage_simps)
  next
    case (Suc j')
    show ?thesis
    proof (cases "0 < e_pins e")
      case True
      with Cons.prems u Suc have "j' < scanned cap u es" by simp
      then have "cap < u - usage (filter (\<lambda>e. e_pins e = 0) (take j' es))"
        by (rule Cons.IH)
      with True Suc show ?thesis by (simp add: usage_simps)
    next
      case False
      with Cons.prems u Suc have "j' < scanned cap (u - e_charge e) es" by simp
      then have "cap < u - e_charge e - usage (filter (\<lambda>e. e_pins e = 0) (take j' es))"
        by (rule Cons.IH)
      with False Suc show ?thesis by (simp add: usage_simps)
    qed
  qed
qed

lemma scanned_stops:
  "scanned cap u es < length es \<Longrightarrow>
     u - usage (filter (\<lambda>e. e_pins e = 0) (take (scanned cap u es) es)) \<le> cap"
proof (induction es arbitrary: u)
  case Nil
  then show ?case by simp
next
  case (Cons e es)
  show ?case
  proof (cases "u \<le> cap")
    case True
    then show ?thesis by (simp add: usage_simps)
  next
    case u: False
    show ?thesis
    proof (cases "0 < e_pins e")
      case True
      with Cons.prems u have "scanned cap u es < length es" by simp
      then have "u - usage (filter (\<lambda>e. e_pins e = 0) (take (scanned cap u es) es)) \<le> cap"
        by (rule Cons.IH)
      with True u show ?thesis by (simp add: usage_simps)
    next
      case False
      with Cons.prems u have "scanned cap (u - e_charge e) es < length es" by simp
      then have "u - e_charge e -
          usage (filter (\<lambda>e. e_pins e = 0) (take (scanned cap (u - e_charge e) es) es)) \<le> cap"
        by (rule Cons.IH)
      with False u show ?thesis by (simp add: usage_simps)
    qed
  qed
qed

lemma evict_head:
  "cap < u \<Longrightarrow> filter (\<lambda>e. e_pins e = 0) es = x # rest \<Longrightarrow>
     \<exists>vs. snd (evict cap u es) = x # vs"
proof (induction es)
  case Nil
  then show ?case by simp
next
  case (Cons e es)
  then show ?case
    by (cases "0 < e_pins e") (auto simp add: split_beta)
qed

lemma evict_one:
  "cap < u \<Longrightarrow> filter (\<lambda>e. e_pins e = 0) es = x # rest \<Longrightarrow> u - e_charge x \<le> cap \<Longrightarrow>
     snd (evict cap u es) = [x]"
proof (induction es)
  case Nil
  then show ?case by simp
next
  case (Cons e es)
  show ?case
  proof (cases "0 < e_pins e")
    case True
    with Cons show ?thesis by (simp add: split_beta)
  next
    case False
    with Cons.prems have "x = e" by simp
    with Cons.prems(1,3) False show ?thesis
      by (simp add: split_beta evict_no_pressure)
  qed
qed

lemma filter_key_unique:
  "distinct (map e_key es) \<Longrightarrow> e \<in> set es \<Longrightarrow> filter (\<lambda>x. e_key x = e_key e) es = [e]"
proof (induction es)
  case Nil
  then show ?case by simp
next
  case (Cons a es)
  show ?case
  proof (cases "a = e")
    case True
    with Cons.prems have "\<forall>x \<in> set es. e_key x \<noteq> e_key e"
      by (metis distinct.simps(2) image_eqI list.simps(9) set_map)
    then have "filter (\<lambda>x. e_key x = e_key e) es = []"
      by (simp add: filter_empty_conv)
    with True show ?thesis by simp
  next
    case False
    with Cons.prems have "e \<in> set es" and "e_key a \<noteq> e_key e"
      by auto
    with Cons show ?thesis by simp
  qed
qed

lemma remove_entry_by_key:
  assumes "distinct (map e_key es)" and "distinct (map e_id es)" and "e \<in> set es"
  shows "remove_entry e es = filter (\<lambda>x. e_key x \<noteq> e_key e) es"
  unfolding remove_entry_def
proof (rule filter_cong [OF refl])
  fix x assume x: "x \<in> set es"
  from assms(1) have k: "inj_on e_key (set es)" by (simp add: distinct_map)
  from assms(2) have i: "inj_on e_id (set es)" by (simp add: distinct_map)
  show "(e_id x \<noteq> e_id e) = (e_key x \<noteq> e_key e)"
  proof
    assume "e_id x \<noteq> e_id e"
    then have "x \<noteq> e" by auto
    with k x assms(3) show "e_key x \<noteq> e_key e" by (auto dest: inj_onD)
  next
    assume "e_key x \<noteq> e_key e"
    then have "x \<noteq> e" by auto
    with i x assms(3) show "e_id x \<noteq> e_id e" by (auto dest: inj_onD)
  qed
qed

lemma rl_shard_erase_filter:
  assumes "distinct (map e_key (rl s))" and "distinct (map e_id (rl s))"
  shows "rl (fst (shard_erase k s)) = filter (\<lambda>x. e_key x \<noteq> k) (rl s)"
proof (cases "find (\<lambda>e. e_key e = k) (rl s)")
  case None
  then have "\<forall>x \<in> set (rl s). e_key x \<noteq> k"
    by (auto simp add: find_key_None)
  then have "filter (\<lambda>x. e_key x \<noteq> k) (rl s) = rl s"
    by (simp add: filter_id_conv)
  with None show ?thesis
    by (simp add: rl_shard_erase)
next
  case (Some e)
  then have e: "e \<in> set (rl s)" "e_key e = k"
    by (auto dest: find_key_Some)
  from remove_entry_by_key [OF assms e(1)] e(2) Some show ?thesis
    by (simp add: rl_shard_erase)
qed

lemma freed_shard_erase_filter:
  assumes "distinct (map e_key (rl s))"
  shows "snd (shard_erase k s) = filter (\<lambda>x. e_key x = k \<and> e_pins x = 0) (rl s)"
proof (cases "find (\<lambda>e. e_key e = k) (rl s)")
  case None
  then have "\<forall>x \<in> set (rl s). e_key x \<noteq> k"
    by (auto simp add: find_key_None)
  then have "filter (\<lambda>x. e_key x = k \<and> e_pins x = 0) (rl s) = []"
    by (simp add: filter_empty_conv)
  with None show ?thesis
    by (simp add: shard_erase_def)
next
  case (Some e)
  then have e: "e \<in> set (rl s)" "e_key e = k"
    by (auto dest: find_key_Some)
  have "filter (\<lambda>x. e_key x = k \<and> e_pins x = 0) (rl s) =
      filter (\<lambda>x. e_pins x = 0) (filter (\<lambda>x. e_key x = e_key e) (rl s))"
    by (simp add: e(2) conj_commute)
  also have "\<dots> = filter (\<lambda>x. e_pins x = 0) [e]"
    by (simp only: filter_key_unique [OF assms e(1)])
  finally show ?thesis
    using Some by (simp add: shard_erase_def detach_def)
qed

lemma sorted_ids_head:
  assumes "sorted_wrt (<) (map e_id es)" and "filter P es = x # rest"
  shows "\<forall>y \<in> set rest. e_id x < e_id y"
proof -
  from assms(1) have "sorted_wrt (\<lambda>a b. e_id a < e_id b) es"
    by (simp add: sorted_wrt_map)
  then have "sorted_wrt (\<lambda>a b. e_id a < e_id b) (filter P es)"
    by (rule sorted_wrt_filter)
  with assms(2) show ?thesis by simp
qed

lemma Insert_closed:
  assumes inv: "cache_inv hash c"
  shows "let i = shard_of hash c k;
             new = \<lparr>e_id = next_id c, e_key = k, e_value = v, e_charge = charge, e_pins = 1,
                    e_callback = cb\<rparr>;
             es = filter (\<lambda>e. e_key e \<noteq> k) (rl (shards c ! i)) @ [new];
             cap_s = capacity c div length (shards c);
             c' = fst (Cache_Insert hash c k v charge cb)
         in \<exists>m \<le> length es.
              rl (shards c' ! i) = filter (\<lambda>e. 0 < e_pins e) (take m es) @ drop m es \<and>
              freed c' = freed c @ filter (\<lambda>e. e_key e = k \<and> e_pins e = 0) (rl (shards c ! i)) @
                           filter (\<lambda>e. e_pins e = 0) (take m es) \<and>
              (\<forall>j < m. cap_s < usage es - usage (filter (\<lambda>e. e_pins e = 0) (take j es))) \<and>
              (m < length es \<longrightarrow> usage es - usage (filter (\<lambda>e. e_pins e = 0) (take m es)) \<le> cap_s)"
proof -
  define i where "i = shard_of hash c k"
  define new where "new = \<lparr>e_id = next_id c, e_key = k, e_value = v, e_charge = charge,
    e_pins = 1, e_callback = cb\<rparr>"
  define es where "es = filter (\<lambda>e. e_key e \<noteq> k) (rl (shards c ! i)) @ [new]"
  define cap_s where "cap_s = capacity c div length (shards c)"
  define c' where "c' = fst (Cache_Insert hash c k v charge cb)"
  define m where "m = scanned cap_s (usage es) es"
  from inv have i: "i < length (shards c)"
    by (simp add: i_def cache_inv_def shard_of_less)
  note sh = cache_inv_shard [OF inv i]
  from sh(3) have d: "distinct (map e_id (rl (shards c ! i)))" by simp
  have k: "e_key new = k" by (simp add: new_def)
  have es1: "rl (fst (shard_erase k (shards c ! i))) @ [new] = es"
    by (simp add: es_def rl_shard_erase_filter [OF sh(1) d])
  have f1: "snd (shard_erase k (shards c ! i)) =
      filter (\<lambda>e. e_key e = k \<and> e_pins e = 0) (rl (shards c ! i))"
    using sh(1) by (rule freed_shard_erase_filter)
  have si: "shard_insert cap_s new (shards c ! i) =
      ((fst (shard_erase k (shards c ! i)))\<lparr>rl := fst (evict cap_s (usage es) es)\<rparr>,
       snd (shard_erase k (shards c ! i)) @ snd (evict cap_s (usage es) es))"
    by (simp add: shard_insert_eq k es1)
  have ev: "evict cap_s (usage es) es =
      (filter (\<lambda>e. 0 < e_pins e) (take m es) @ drop m es, filter (\<lambda>e. e_pins e = 0) (take m es))"
    unfolding m_def by (rule evict_scanned)
  have c'_eq: "c' = (put_shard c i (shard_insert cap_s new (shards c ! i)))\<lparr>next_id := next_id c + 1\<rparr>"
    by (simp add: c'_def Cache_Insert_def Let_def i_def new_def cap_s_def)
  have 1: "m \<le> length es"
    unfolding m_def by (rule scanned_le)
  have 2: "rl (shards c' ! i) = filter (\<lambda>e. 0 < e_pins e) (take m es) @ drop m es"
    using i by (simp add: c'_eq si ev put_shard_def)
  have 3: "freed c' = freed c @ filter (\<lambda>e. e_key e = k \<and> e_pins e = 0) (rl (shards c ! i)) @
      filter (\<lambda>e. e_pins e = 0) (take m es)"
    by (simp add: c'_eq si ev put_shard_def f1)
  have 4: "\<forall>j < m. cap_s < usage es - usage (filter (\<lambda>e. e_pins e = 0) (take j es))"
    unfolding m_def by (auto intro: scanned_pressure)
  have 5: "m < length es \<longrightarrow> usage es - usage (filter (\<lambda>e. e_pins e = 0) (take m es)) \<le> cap_s"
    unfolding m_def by (auto intro: scanned_stops)
  from 1 2 3 4 5 have "\<exists>m \<le> length es.
      rl (shards c' ! i) = filter (\<lambda>e. 0 < e_pins e) (take m es) @ drop m es \<and>
      freed c' = freed c @ filter (\<lambda>e. e_key e = k \<and> e_pins e = 0) (rl (shards c ! i)) @
                   filter (\<lambda>e. e_pins e = 0) (take m es) \<and>
      (\<forall>j < m. cap_s < usage es - usage (filter (\<lambda>e. e_pins e = 0) (take j es))) \<and>
      (m < length es \<longrightarrow> usage es - usage (filter (\<lambda>e. e_pins e = 0) (take m es)) \<le> cap_s)"
    by blast
  then show ?thesis
    unfolding Let_def i_def [symmetric] new_def [symmetric] es_def [symmetric]
      cap_s_def [symmetric] c'_def [symmetric] .
qed

lemma FIFO_Insert_head:
  assumes inv: "cache_inv hash c" and ord: "insertion_ordered c"
  shows "let i = shard_of hash c k;
             new = \<lparr>e_id = next_id c, e_key = k, e_value = v, e_charge = charge, e_pins = 1,
                    e_callback = cb\<rparr>;
             es = filter (\<lambda>e. e_key e \<noteq> k) (rl (shards c ! i)) @ [new];
             cap_s = capacity c div length (shards c);
             c' = fst (Cache_Insert hash c k v charge cb)
         in \<forall>x rest. cap_s < usage es \<and> filter (\<lambda>e. e_pins e = 0) es = x # rest \<longrightarrow>
              (\<exists>vs. freed c' = freed c @
                 filter (\<lambda>e. e_key e = k \<and> e_pins e = 0) (rl (shards c ! i)) @ x # vs) \<and>
              (usage es - e_charge x \<le> cap_s \<longrightarrow>
                 freed c' = freed c @
                   filter (\<lambda>e. e_key e = k \<and> e_pins e = 0) (rl (shards c ! i)) @ [x]) \<and>
              (\<forall>y \<in> set rest. e_id x < e_id y)"
proof -
  define i where "i = shard_of hash c k"
  define new where "new = \<lparr>e_id = next_id c, e_key = k, e_value = v, e_charge = charge,
    e_pins = 1, e_callback = cb\<rparr>"
  define es where "es = filter (\<lambda>e. e_key e \<noteq> k) (rl (shards c ! i)) @ [new]"
  define cap_s where "cap_s = capacity c div length (shards c)"
  define c' where "c' = fst (Cache_Insert hash c k v charge cb)"
  define f1 where "f1 = filter (\<lambda>e. e_key e = k \<and> e_pins e = 0) (rl (shards c ! i))"
  from inv have i: "i < length (shards c)"
    by (simp add: i_def cache_inv_def shard_of_less)
  note sh = cache_inv_shard [OF inv i]
  from sh(3) have d: "distinct (map e_id (rl (shards c ! i)))" by simp
  have k: "e_key new = k" by (simp add: new_def)
  have es1: "rl (fst (shard_erase k (shards c ! i))) @ [new] = es"
    by (simp add: es_def rl_shard_erase_filter [OF sh(1) d])
  have f1': "snd (shard_erase k (shards c ! i)) = f1"
    unfolding f1_def using sh(1) by (rule freed_shard_erase_filter)
  have c'_eq: "c' = (put_shard c i (shard_insert cap_s new (shards c ! i)))\<lparr>next_id := next_id c + 1\<rparr>"
    by (simp add: c'_def Cache_Insert_def Let_def i_def new_def cap_s_def)
  have fr: "freed c' = freed c @ f1 @ snd (evict cap_s (usage es) es)"
    by (simp add: c'_eq put_shard_def shard_insert_eq k es1 f1')
  have "sorted_wrt (<) (map e_id (rl (fst (shard_erase k (shards c ! i))) @ [new]))"
    using inv ord i by (rule sorted_before_insert) (simp add: new_def)
  then have srt: "sorted_wrt (<) (map e_id es)"
    by (simp only: es1)
  have "\<forall>x rest. cap_s < usage es \<and> filter (\<lambda>e. e_pins e = 0) es = x # rest \<longrightarrow>
      (\<exists>vs. freed c' = freed c @ f1 @ x # vs) \<and>
      (usage es - e_charge x \<le> cap_s \<longrightarrow> freed c' = freed c @ f1 @ [x]) \<and>
      (\<forall>y \<in> set rest. e_id x < e_id y)"
  proof (intro allI impI, elim conjE)
    fix x rest
    assume p: "cap_s < usage es" and f: "filter (\<lambda>e. e_pins e = 0) es = x # rest"
    from evict_head [OF p f] obtain vs where "snd (evict cap_s (usage es) es) = x # vs"
      by blast
    then have a: "\<exists>vs. freed c' = freed c @ f1 @ x # vs"
      by (simp add: fr)
    have b: "usage es - e_charge x \<le> cap_s \<longrightarrow> freed c' = freed c @ f1 @ [x]"
      by (simp add: fr evict_one [OF p f])
    from srt f have "\<forall>y \<in> set rest. e_id x < e_id y"
      by (rule sorted_ids_head)
    with a b show "(\<exists>vs. freed c' = freed c @ f1 @ x # vs) \<and>
      (usage es - e_charge x \<le> cap_s \<longrightarrow> freed c' = freed c @ f1 @ [x]) \<and>
      (\<forall>y \<in> set rest. e_id x < e_id y)"
      by blast
  qed
  then show ?thesis
    unfolding Let_def i_def [symmetric] new_def [symmetric] es_def [symmetric]
      cap_s_def [symmetric] c'_def [symmetric] f1_def [symmetric] .
qed

text \<open>Claim C7. In every state that a sequence of operations (inserts, lookups, releases of
  handles, erases, invalidations) reaches from a new FIFO cache: the eviction list of every
  shard is in the order of insertion, whatever lookups came in between; a lookup leaves the
  eviction order of every shard as it is, and a hit changes nothing in the cache but the pin
  count of the entry found; when an insertion evicts, each victim is an unpinned entry of
  the shard that was inserted before every unpinned entry that stays, nothing is evicted
  while the usage stays within the capacity, and after the insertion the usage of the shard
  is within its capacity unless every entry left in the shard is pinned. (The entries
  \<open>f1\<close> are a prior entry of the inserted key, if unpinned.)

  What an insertion evicts is determined. Let \<open>es\<close> be the eviction list without a prior
  entry of the inserted key, followed by the new entry. The insertion frees the prior entry
  if it is unpinned, and then the unpinned entries among the first \<open>m\<close> of \<open>es\<close>, where
  \<open>m\<close> is forced: before each of the first \<open>m\<close> entries the usage that was left still
  exceeded the capacity of the shard, and at entry \<open>m\<close>, if there is one, it no longer
  does. The pinned entries among the first \<open>m\<close> and all later ones stay, in their order. So
  under capacity pressure the first victim is the earliest inserted unpinned entry, and it
  is the only victim when evicting it alone brings the usage within the capacity.\<close>

theorem FIFO_eviction_order:
  assumes "0 < n"
  shows "let c = run hash (new_Cache FIFO cap n) ops in
    insertion_ordered c \<and>
    (\<forall>k. map (\<lambda>s. map e_id (rl s)) (shards (fst (Cache_Lookup hash c k))) =
          map (\<lambda>s. map e_id (rl s)) (shards c)) \<and>
    (\<forall>k c' h v. Cache_Lookup hash c k = (c', Some (h, v)) \<longrightarrow>
       c' = c\<lparr>shards := (shards c)[shard_of hash c k :=
              (shards c ! shard_of hash c k)\<lparr>rl :=
                 map (\<lambda>x. if e_id x = h_entry h then pin x else x)
                   (rl (shards c ! shard_of hash c k))\<rparr>]\<rparr>) \<and>
    (\<forall>k v charge cb. \<exists>f1 victims.
       freed (fst (Cache_Insert hash c k v charge cb)) = freed c @ f1 @ victims \<and>
       (\<forall>x \<in> set f1. e_key x = k) \<and>
       (\<forall>x \<in> set victims.
          x \<in> set (rl (shards c ! shard_of hash c k)) \<and> e_pins x = 0 \<and>
          (\<forall>y \<in> set (rl (shards (fst (Cache_Insert hash c k v charge cb)) ! shard_of hash c k)).
             e_pins y = 0 \<longrightarrow> e_id x < e_id y)) \<and>
       (usage (rl (shards c ! shard_of hash c k)) + charge \<le> capacity c div length (shards c) \<longrightarrow>
          victims = []) \<and>
       (usage (rl (shards (fst (Cache_Insert hash c k v charge cb)) ! shard_of hash c k))
          \<le> capacity c div length (shards c) \<or>
        (\<forall>y \<in> set (rl (shards (fst (Cache_Insert hash c k v charge cb)) ! shard_of hash c k)).
           0 < e_pins y))) \<and>
    (\<forall>k v charge cb.
       let i = shard_of hash c k;
           new = \<lparr>e_id = next_id c, e_key = k, e_value = v, e_charge = charge, e_pins = 1,
                  e_callback = cb\<rparr>;
           es = filter (\<lambda>e. e_key e \<noteq> k) (rl (shards c ! i)) @ [new];
           cap_s = capacity c div length (shards c);
           c' = fst (Cache_Insert hash c k v charge cb)
       in \<exists>m \<le> length es.
            rl (shards c' ! i) = filter (\<lambda>e. 0 < e_pins e) (take m es) @ drop m es \<and>
            freed c' = freed c @ filter (\<lambda>e. e_key e = k \<and> e_pins e = 0) (rl (shards c ! i)) @
                         filter (\<lambda>e. e_pins e = 0) (take m es) \<and>
            (\<forall>j < m. cap_s < usage es - usage (filter (\<lambda>e. e_pins e = 0) (take j es))) \<and>
            (m < length es \<longrightarrow> usage es - usage (filter (\<lambda>e. e_pins e = 0) (take m es)) \<le> cap_s)) \<and>
    (\<forall>k v charge cb.
       let i = shard_of hash c k;
           new = \<lparr>e_id = next_id c, e_key = k, e_value = v, e_charge = charge, e_pins = 1,
                  e_callback = cb\<rparr>;
           es = filter (\<lambda>e. e_key e \<noteq> k) (rl (shards c ! i)) @ [new];
           cap_s = capacity c div length (shards c);
           c' = fst (Cache_Insert hash c k v charge cb)
       in \<forall>x rest. cap_s < usage es \<and> filter (\<lambda>e. e_pins e = 0) es = x # rest \<longrightarrow>
            (\<exists>vs. freed c' = freed c @
               filter (\<lambda>e. e_key e = k \<and> e_pins e = 0) (rl (shards c ! i)) @ x # vs) \<and>
            (usage es - e_charge x \<le> cap_s \<longrightarrow>
               freed c' = freed c @
                 filter (\<lambda>e. e_key e = k \<and> e_pins e = 0) (rl (shards c ! i)) @ [x]) \<and>
            (\<forall>y \<in> set rest. e_id x < e_id y))"
proof -
  define c where "c = run hash (new_Cache FIFO cap n :: ('a, 'b) Cache) ops"
  from assms have inv0: "cache_inv hash (new_Cache FIFO cap n :: ('a, 'b) Cache)"
    by (rule cache_inv_new_Cache)
  then have inv: "cache_inv hash c"
    unfolding c_def by (rule cache_inv_run)
  have "policy (new_Cache FIFO cap n :: ('a, 'b) Cache) = FIFO"
    and "insertion_ordered (new_Cache FIFO cap n :: ('a, 'b) Cache)"
    by (simp_all add: new_Cache_def insertion_ordered_def)
  with inv0 have fifo: "policy c = FIFO" and ord: "insertion_ordered c"
    unfolding c_def using FIFO_run by blast+
  have 2: "\<forall>k. map (\<lambda>s. map e_id (rl s)) (shards (fst (Cache_Lookup hash c k))) =
          map (\<lambda>s. map e_id (rl s)) (shards c)"
    using FIFO_Lookup_order [OF fifo] by blast
  have 3: "\<forall>k c' h v. Cache_Lookup hash c k = (c', Some (h, v)) \<longrightarrow>
       c' = c\<lparr>shards := (shards c)[shard_of hash c k :=
              (shards c ! shard_of hash c k)\<lparr>rl :=
                 map (\<lambda>x. if e_id x = h_entry h then pin x else x)
                   (rl (shards c ! shard_of hash c k))\<rparr>]\<rparr>"
    using FIFO_Lookup_hit(2) [OF fifo] by blast
  have 4: "\<forall>k v charge cb. \<exists>f1 victims.
       freed (fst (Cache_Insert hash c k v charge cb)) = freed c @ f1 @ victims \<and>
       (\<forall>x \<in> set f1. e_key x = k) \<and>
       (\<forall>x \<in> set victims.
          x \<in> set (rl (shards c ! shard_of hash c k)) \<and> e_pins x = 0 \<and>
          (\<forall>y \<in> set (rl (shards (fst (Cache_Insert hash c k v charge cb)) ! shard_of hash c k)).
             e_pins y = 0 \<longrightarrow> e_id x < e_id y)) \<and>
       (usage (rl (shards c ! shard_of hash c k)) + charge \<le> capacity c div length (shards c) \<longrightarrow>
          victims = []) \<and>
       (usage (rl (shards (fst (Cache_Insert hash c k v charge cb)) ! shard_of hash c k))
          \<le> capacity c div length (shards c) \<or>
        (\<forall>y \<in> set (rl (shards (fst (Cache_Insert hash c k v charge cb)) ! shard_of hash c k)).
           0 < e_pins y))"
    using FIFO_Insert_evicts [OF inv ord] by blast
  have 5: "\<forall>k v charge cb.
       let i = shard_of hash c k;
           new = \<lparr>e_id = next_id c, e_key = k, e_value = v, e_charge = charge, e_pins = 1,
                  e_callback = cb\<rparr>;
           es = filter (\<lambda>e. e_key e \<noteq> k) (rl (shards c ! i)) @ [new];
           cap_s = capacity c div length (shards c);
           c' = fst (Cache_Insert hash c k v charge cb)
       in \<exists>m \<le> length es.
            rl (shards c' ! i) = filter (\<lambda>e. 0 < e_pins e) (take m es) @ drop m es \<and>
            freed c' = freed c @ filter (\<lambda>e. e_key e = k \<and> e_pins e = 0) (rl (shards c ! i)) @
                         filter (\<lambda>e. e_pins e = 0) (take m es) \<and>
            (\<forall>j < m. cap_s < usage es - usage (filter (\<lambda>e. e_pins e = 0) (take j es))) \<and>
            (m < length es \<longrightarrow> usage es - usage (filter (\<lambda>e. e_pins e = 0) (take m es)) \<le> cap_s)"
    by (intro allI) (rule Insert_closed [OF inv])
  have 6: "\<forall>k v charge cb.
       let i = shard_of hash c k;
           new = \<lparr>e_id = next_id c, e_key = k, e_value = v, e_charge = charge, e_pins = 1,
                  e_callback = cb\<rparr>;
           es = filter (\<lambda>e. e_key e \<noteq> k) (rl (shards c ! i)) @ [new];
           cap_s = capacity c div length (shards c);
           c' = fst (Cache_Insert hash c k v charge cb)
       in \<forall>x rest. cap_s < usage es \<and> filter (\<lambda>e. e_pins e = 0) es = x # rest \<longrightarrow>
            (\<exists>vs. freed c' = freed c @
               filter (\<lambda>e. e_key e = k \<and> e_pins e = 0) (rl (shards c ! i)) @ x # vs) \<and>
            (usage es - e_charge x \<le> cap_s \<longrightarrow>
               freed c' = freed c @
                 filter (\<lambda>e. e_key e = k \<and> e_pins e = 0) (rl (shards c ! i)) @ [x]) \<and>
            (\<forall>y \<in> set rest. e_id x < e_id y)"
    by (intro allI) (rule FIFO_Insert_head [OF inv ord])
  from ord 2 3 4 5 [unfolded Let_def] 6 [unfolded Let_def] show ?thesis
    unfolding c_def [symmetric] Let_def by (intro conjI)
qed

theorem FIFO_eviction_order_witness:
  "insertion_ordered (run (\<lambda>k. k) (new_Cache FIFO 3 1)
      [Op_Insert (0 :: nat) (0 :: nat) 1, Op_Release \<lparr>h_shard = 0, h_entry = 0\<rparr>,
       Op_Lookup 0, Op_Release \<lparr>h_shard = 0, h_entry = 0\<rparr>,
       Op_Insert 1 1 1, Op_Release \<lparr>h_shard = 0, h_entry = 1\<rparr>,
       Op_Lookup 0, Op_Release \<lparr>h_shard = 0, h_entry = 0\<rparr>,
       Op_Insert 2 2 1, Op_Release \<lparr>h_shard = 0, h_entry = 2\<rparr>,
       Op_Lookup 0, Op_Release \<lparr>h_shard = 0, h_entry = 0\<rparr>]) \<and>
   map e_key (rl (shards (run (\<lambda>k. k) (new_Cache FIFO 3 1)
      [Op_Insert (0 :: nat) (0 :: nat) 1, Op_Release \<lparr>h_shard = 0, h_entry = 0\<rparr>,
       Op_Lookup 0, Op_Release \<lparr>h_shard = 0, h_entry = 0\<rparr>,
       Op_Insert 1 1 1, Op_Release \<lparr>h_shard = 0, h_entry = 1\<rparr>,
       Op_Lookup 0, Op_Release \<lparr>h_shard = 0, h_entry = 0\<rparr>,
       Op_Insert 2 2 1, Op_Release \<lparr>h_shard = 0, h_entry = 2\<rparr>,
       Op_Lookup 0, Op_Release \<lparr>h_shard = 0, h_entry = 0\<rparr>]) ! 0)) = [0, 1, 2] \<and>
   evicted (fst (Cache_Insert (\<lambda>k. k) (run (\<lambda>k. k) (new_Cache FIFO 3 1)
      [Op_Insert (0 :: nat) (0 :: nat) 1, Op_Release \<lparr>h_shard = 0, h_entry = 0\<rparr>,
       Op_Lookup 0, Op_Release \<lparr>h_shard = 0, h_entry = 0\<rparr>,
       Op_Insert 1 1 1, Op_Release \<lparr>h_shard = 0, h_entry = 1\<rparr>,
       Op_Lookup 0, Op_Release \<lparr>h_shard = 0, h_entry = 0\<rparr>,
       Op_Insert 2 2 1, Op_Release \<lparr>h_shard = 0, h_entry = 2\<rparr>,
       Op_Lookup 0, Op_Release \<lparr>h_shard = 0, h_entry = 0\<rparr>]) 3 3 1 True)) = [(0, 0)] \<and>
   freed (fst (Cache_Insert (\<lambda>k. k) (run (\<lambda>k. k) (new_Cache FIFO 3 1)
      [Op_Insert (0 :: nat) (0 :: nat) 1, Op_Release \<lparr>h_shard = 0, h_entry = 0\<rparr>,
       Op_Lookup 0, Op_Release \<lparr>h_shard = 0, h_entry = 0\<rparr>,
       Op_Insert 1 1 1, Op_Release \<lparr>h_shard = 0, h_entry = 1\<rparr>,
       Op_Lookup 0, Op_Release \<lparr>h_shard = 0, h_entry = 0\<rparr>,
       Op_Insert 2 2 1, Op_Release \<lparr>h_shard = 0, h_entry = 2\<rparr>,
       Op_Lookup 0, Op_Release \<lparr>h_shard = 0, h_entry = 0\<rparr>]) 3 3 1 True)) =
     [\<lparr>e_id = 0, e_key = 0, e_value = 0, e_charge = 1, e_pins = 0, e_callback = True\<rparr>]"
proof -
  let ?ops = "[Op_Insert (0 :: nat) (0 :: nat) 1, Op_Release \<lparr>h_shard = 0, h_entry = 0\<rparr>,
       Op_Lookup 0, Op_Release \<lparr>h_shard = 0, h_entry = 0\<rparr>,
       Op_Insert 1 1 1, Op_Release \<lparr>h_shard = 0, h_entry = 1\<rparr>,
       Op_Lookup 0, Op_Release \<lparr>h_shard = 0, h_entry = 0\<rparr>,
       Op_Insert 2 2 1, Op_Release \<lparr>h_shard = 0, h_entry = 2\<rparr>,
       Op_Lookup 0, Op_Release \<lparr>h_shard = 0, h_entry = 0\<rparr>]"
  let ?c = "run (\<lambda>k. k) (new_Cache FIFO 3 1) ?ops"
  let ?i = "shard_of (\<lambda>k. k) ?c 3"
  let ?new = "\<lparr>e_id = next_id ?c, e_key = 3 :: nat, e_value = 3 :: nat, e_charge = 1, e_pins = 1,
                e_callback = True\<rparr>"
  let ?es = "filter (\<lambda>e. e_key e \<noteq> 3) (rl (shards ?c ! ?i)) @ [?new]"
  let ?caps = "capacity ?c div length (shards ?c)"
  let ?e0 = "\<lparr>e_id = 0, e_key = 0 :: nat, e_value = 0 :: nat, e_charge = 1, e_pins = 0,
               e_callback = True\<rparr>"
  let ?e1 = "\<lparr>e_id = 1, e_key = 1 :: nat, e_value = 1 :: nat, e_charge = 1, e_pins = 0,
               e_callback = True\<rparr>"
  let ?e2 = "\<lparr>e_id = 2, e_key = 2 :: nat, e_value = 2 :: nat, e_charge = 1, e_pins = 0,
               e_callback = True\<rparr>"
  have z: "0 < (1 :: nat)" by simp
  have a: "map e_key (rl (shards ?c ! 0)) = [0, 1, 2]"
    by code_simp
  have b: "evicted (fst (Cache_Insert (\<lambda>k. k) ?c 3 3 1 True)) = [(0, 0)]"
    by code_simp
  have p1: "?caps < usage ?es"
    by code_simp
  have p2: "filter (\<lambda>e. e_pins e = 0) ?es = ?e0 # [?e1, ?e2]"
    by code_simp
  have p3: "usage ?es - e_charge ?e0 \<le> ?caps"
    by code_simp
  have p4: "freed ?c = []"
    by code_simp
  have p5: "filter (\<lambda>e. e_key e = 3 \<and> e_pins e = 0) (rl (shards ?c ! ?i)) = []"
    by code_simp
  note t = FIFO_eviction_order [OF z, of "\<lambda>k. k" 3 ?ops, unfolded Let_def]
  from t have o: "insertion_ordered ?c"
    by (elim conjE)
  note h = t [THEN conjunct2, THEN conjunct2, THEN conjunct2, THEN conjunct2, THEN conjunct2,
      rule_format, of 3 3 1 True ?e0 "[?e1, ?e2]"]
  from h p1 p2 p3 have "freed (fst (Cache_Insert (\<lambda>k. k) ?c 3 3 1 True)) =
      freed ?c @ filter (\<lambda>e. e_key e = 3 \<and> e_pins e = 0) (rl (shards ?c ! ?i)) @ [?e0]"
    by blast
  then have f: "freed (fst (Cache_Insert (\<lambda>k. k) ?c 3 3 1 True)) = [?e0]"
    by (simp only: p4 p5 append_Nil)
  from o a b f show ?thesis by blast
qed

subsection \<open>Invalidation\<close>

lemma zip_map_same: "zip xs (map g xs) = map (\<lambda>x. (x, g x)) xs"
  by (induction xs) simp_all

lemma visited_default: "visited default_ctl v i es = length es"
  by (induction es arbitrary: v i) (simp_all add: default_ctl_def)

lemma invalidate_loop_default:
  "invalidate_loop default_ctl v i es = ([], es)"
  by (induction es arbitrary: v i) (simp_all add: default_ctl_def)

text \<open>Claim C6. In every state that a sequence of operations reaches from a new cache,
  \<open>invalidate\<close> visits in each shard a prefix of the eviction list, in policy order (the
  first \<open>m\<close> entries, one \<open>m\<close> for each shard): \<open>iteration_fn\<close>, given the counts of the
  valid and the invalid entries visited so far in the shard, returned true before each
  visited entry, and returns false at the first entry not visited, if there is one. Exactly
  the visited entries for which \<open>validity_fn\<close> returns false leave the cache: those without
  a live handle are freed, in the order of the visit, the pinned ones are detached. The
  result is the number of these entries. With the defaults every entry is invalidated and
  the result is the number of entries in the cache.\<close>

theorem Invalidate_semantics:
  assumes "0 < n"
  shows "let c = run hash (new_Cache pol cap n) ops;
             V = (\<lambda>e. validity_fn ctl (e_key e) (e_value e));
             c' = fst (Cache_Invalidate c ctl)
         in
    (\<exists>ms. length ms = length (shards c) \<and> length (shards c') = length (shards c) \<and>
       (\<forall>i < length (shards c).
          ms ! i \<le> length (rl (shards c ! i)) \<and>
          rl (shards c' ! i) =
            filter V (take (ms ! i) (rl (shards c ! i))) @ drop (ms ! i) (rl (shards c ! i)) \<and>
          detached (shards c' ! i) =
            detached (shards c ! i) @
            filter (\<lambda>e. e_pins e \<noteq> 0) (filter (\<lambda>e. \<not> V e) (take (ms ! i) (rl (shards c ! i)))) \<and>
          (\<forall>j < ms ! i.
             iteration_fn ctl (length (filter V (take j (rl (shards c ! i)))))
               (length (filter (\<lambda>e. \<not> V e) (take j (rl (shards c ! i)))))) \<and>
          (ms ! i < length (rl (shards c ! i)) \<longrightarrow>
             \<not> iteration_fn ctl (length (filter V (take (ms ! i) (rl (shards c ! i)))))
               (length (filter (\<lambda>e. \<not> V e) (take (ms ! i) (rl (shards c ! i))))))) \<and>
       freed c' = freed c @
         concat (map (\<lambda>(s, m). filter (\<lambda>e. e_pins e = 0) (filter (\<lambda>e. \<not> V e) (take m (rl s))))
           (zip (shards c) ms)) \<and>
       snd (Cache_Invalidate c ctl) =
         sum_list (map (\<lambda>(s, m). length (filter (\<lambda>e. \<not> V e) (take m (rl s)))) (zip (shards c) ms))) \<and>
    (\<forall>i < length (shards c). rl (shards (fst (Cache_Invalidate c default_ctl)) ! i) = []) \<and>
    snd (Cache_Invalidate c default_ctl) = sum_list (map (\<lambda>s. length (rl s)) (shards c))"
proof -
  define c where "c = run hash (new_Cache pol cap n :: ('a, 'b) Cache) ops"
  define V where "V = (\<lambda>e :: ('a, 'b) Entry. validity_fn ctl (e_key e) (e_value e))"
  define c' where "c' = fst (Cache_Invalidate c ctl)"
  define ms where "ms = map (\<lambda>s. visited ctl 0 0 (rl s)) (shards c)"
  from assms have inv: "cache_inv hash c"
    unfolding c_def by (intro cache_inv_run cache_inv_new_Cache)
  note eq = Cache_Invalidate_eq [OF inv, of ctl]
  have gone: "snd (invalidate_loop ctl 0 0 es) = filter (\<lambda>e. \<not> V e) (take (visited ctl 0 0 es) es)"
    for es
    unfolding V_def by (rule invalidate_loop_gone)
  have stay: "fst (invalidate_loop ctl 0 0 es) =
      filter V (take (visited ctl 0 0 es) es) @ drop (visited ctl 0 0 es) es" for es
    unfolding V_def by (rule invalidate_loop_stay)
  have len: "length ms = length (shards c)" "length (shards c') = length (shards c)"
    by (simp_all add: ms_def c'_def eq)
  have sh: "\<forall>i < length (shards c).
          ms ! i \<le> length (rl (shards c ! i)) \<and>
          rl (shards c' ! i) =
            filter V (take (ms ! i) (rl (shards c ! i))) @ drop (ms ! i) (rl (shards c ! i)) \<and>
          detached (shards c' ! i) =
            detached (shards c ! i) @
            filter (\<lambda>e. e_pins e \<noteq> 0) (filter (\<lambda>e. \<not> V e) (take (ms ! i) (rl (shards c ! i)))) \<and>
          (\<forall>j < ms ! i.
             iteration_fn ctl (length (filter V (take j (rl (shards c ! i)))))
               (length (filter (\<lambda>e. \<not> V e) (take j (rl (shards c ! i)))))) \<and>
          (ms ! i < length (rl (shards c ! i)) \<longrightarrow>
             \<not> iteration_fn ctl (length (filter V (take (ms ! i) (rl (shards c ! i)))))
               (length (filter (\<lambda>e. \<not> V e) (take (ms ! i) (rl (shards c ! i))))))"
  proof (intro allI impI)
    fix i assume i: "i < length (shards c)"
    let ?es = "rl (shards c ! i)"
    from i have m: "ms ! i = visited ctl 0 0 ?es"
      by (simp add: ms_def)
    have 1: "ms ! i \<le> length ?es"
      unfolding m by (rule visited_le)
    have 2: "rl (shards c' ! i) = filter V (take (ms ! i) ?es) @ drop (ms ! i) ?es"
      using i by (simp add: c'_def eq m stay)
    have 3: "detached (shards c' ! i) = detached (shards c ! i) @
        filter (\<lambda>e. e_pins e \<noteq> 0) (filter (\<lambda>e. \<not> V e) (take (ms ! i) ?es))"
      using i by (simp add: c'_def eq m gone)
    have 4: "\<forall>j < ms ! i. iteration_fn ctl (length (filter V (take j ?es)))
        (length (filter (\<lambda>e. \<not> V e) (take j ?es)))"
      unfolding m V_def using invalidate_loop_advances [of _ ctl 0 0 ?es] by simp
    have 5: "ms ! i < length ?es \<longrightarrow> \<not> iteration_fn ctl (length (filter V (take (ms ! i) ?es)))
        (length (filter (\<lambda>e. \<not> V e) (take (ms ! i) ?es)))"
      unfolding m V_def using invalidate_loop_stops [of ctl 0 0 ?es] by simp
    from 1 2 3 4 5 show "ms ! i \<le> length ?es \<and>
          rl (shards c' ! i) = filter V (take (ms ! i) ?es) @ drop (ms ! i) ?es \<and>
          detached (shards c' ! i) =
            detached (shards c ! i) @
            filter (\<lambda>e. e_pins e \<noteq> 0) (filter (\<lambda>e. \<not> V e) (take (ms ! i) ?es)) \<and>
          (\<forall>j < ms ! i.
             iteration_fn ctl (length (filter V (take j ?es)))
               (length (filter (\<lambda>e. \<not> V e) (take j ?es)))) \<and>
          (ms ! i < length ?es \<longrightarrow>
             \<not> iteration_fn ctl (length (filter V (take (ms ! i) ?es)))
               (length (filter (\<lambda>e. \<not> V e) (take (ms ! i) ?es))))"
      by (intro conjI)
  qed
  have fr: "freed c' = freed c @
         concat (map (\<lambda>(s, m). filter (\<lambda>e. e_pins e = 0) (filter (\<lambda>e. \<not> V e) (take m (rl s))))
           (zip (shards c) ms))"
    by (simp add: c'_def eq ms_def zip_map_same comp_def gone)
  have cnt: "snd (Cache_Invalidate c ctl) =
         sum_list (map (\<lambda>(s, m). length (filter (\<lambda>e. \<not> V e) (take m (rl s)))) (zip (shards c) ms))"
    by (simp add: eq ms_def zip_map_same comp_def gone)
  have d1: "\<forall>i < length (shards c). rl (shards (fst (Cache_Invalidate c default_ctl)) ! i) = []"
    by (simp add: Cache_Invalidate_eq [OF inv] invalidate_loop_default)
  have d2: "snd (Cache_Invalidate c default_ctl) = sum_list (map (\<lambda>s. length (rl s)) (shards c))"
    by (simp add: Cache_Invalidate_eq [OF inv] invalidate_loop_default)
  from len sh fr cnt have "\<exists>ms. length ms = length (shards c) \<and> length (shards c') = length (shards c) \<and>
       (\<forall>i < length (shards c).
          ms ! i \<le> length (rl (shards c ! i)) \<and>
          rl (shards c' ! i) =
            filter V (take (ms ! i) (rl (shards c ! i))) @ drop (ms ! i) (rl (shards c ! i)) \<and>
          detached (shards c' ! i) =
            detached (shards c ! i) @
            filter (\<lambda>e. e_pins e \<noteq> 0) (filter (\<lambda>e. \<not> V e) (take (ms ! i) (rl (shards c ! i)))) \<and>
          (\<forall>j < ms ! i.
             iteration_fn ctl (length (filter V (take j (rl (shards c ! i)))))
               (length (filter (\<lambda>e. \<not> V e) (take j (rl (shards c ! i)))))) \<and>
          (ms ! i < length (rl (shards c ! i)) \<longrightarrow>
             \<not> iteration_fn ctl (length (filter V (take (ms ! i) (rl (shards c ! i)))))
               (length (filter (\<lambda>e. \<not> V e) (take (ms ! i) (rl (shards c ! i))))))) \<and>
       freed c' = freed c @
         concat (map (\<lambda>(s, m). filter (\<lambda>e. e_pins e = 0) (filter (\<lambda>e. \<not> V e) (take m (rl s))))
           (zip (shards c) ms)) \<and>
       snd (Cache_Invalidate c ctl) =
         sum_list (map (\<lambda>(s, m). length (filter (\<lambda>e. \<not> V e) (take m (rl s)))) (zip (shards c) ms))"
    by (intro exI [of _ ms] conjI)
  with d1 d2 show ?thesis
    unfolding c_def [symmetric] V_def [symmetric] c'_def [symmetric] Let_def
    by (intro conjI)
qed

theorem Invalidate_semantics_witness:
  "snd (Cache_Invalidate (run (\<lambda>k. k) (new_Cache LRU 100 2)
      [Op_Insert (0 :: nat) (0 :: nat) 1, Op_Release \<lparr>h_shard = 0, h_entry = 0\<rparr>,
       Op_Insert 1 1 1, Op_Release \<lparr>h_shard = 1, h_entry = 1\<rparr>,
       Op_Insert 2 2 1, Op_Release \<lparr>h_shard = 0, h_entry = 2\<rparr>,
       Op_Insert 3 3 1, Op_Release \<lparr>h_shard = 1, h_entry = 3\<rparr>]) default_ctl) = 4 \<and>
   snd (Cache_Invalidate (run (\<lambda>k. k) (new_Cache LRU 100 2)
      [Op_Insert (0 :: nat) (0 :: nat) 1, Op_Release \<lparr>h_shard = 0, h_entry = 0\<rparr>,
       Op_Insert 1 1 1, Op_Release \<lparr>h_shard = 1, h_entry = 1\<rparr>,
       Op_Insert 2 2 1, Op_Release \<lparr>h_shard = 0, h_entry = 2\<rparr>,
       Op_Insert 3 3 1, Op_Release \<lparr>h_shard = 1, h_entry = 3\<rparr>])
      \<lparr>validity_fn = (\<lambda>k v. even k), iteration_fn = (\<lambda>valid invalid. True)\<rparr>) = 2 \<and>
   evicted (fst (Cache_Invalidate (run (\<lambda>k. k) (new_Cache LRU 100 2)
      [Op_Insert (0 :: nat) (0 :: nat) 1, Op_Release \<lparr>h_shard = 0, h_entry = 0\<rparr>,
       Op_Insert 1 1 1, Op_Release \<lparr>h_shard = 1, h_entry = 1\<rparr>,
       Op_Insert 2 2 1, Op_Release \<lparr>h_shard = 0, h_entry = 2\<rparr>,
       Op_Insert 3 3 1, Op_Release \<lparr>h_shard = 1, h_entry = 3\<rparr>])
      \<lparr>validity_fn = (\<lambda>k v. even k), iteration_fn = (\<lambda>valid invalid. True)\<rparr>)) = [(1, 1), (3, 3)] \<and>
   snd (Cache_Invalidate (run (\<lambda>k. k) (new_Cache LRU 100 2)
      [Op_Insert (0 :: nat) (0 :: nat) 1, Op_Release \<lparr>h_shard = 0, h_entry = 0\<rparr>,
       Op_Insert 1 1 1, Op_Release \<lparr>h_shard = 1, h_entry = 1\<rparr>,
       Op_Insert 2 2 1, Op_Release \<lparr>h_shard = 0, h_entry = 2\<rparr>,
       Op_Insert 3 3 1, Op_Release \<lparr>h_shard = 1, h_entry = 3\<rparr>])
      \<lparr>validity_fn = (\<lambda>k v. False), iteration_fn = (\<lambda>valid invalid. False)\<rparr>) = 0"
proof -
  let ?ops = "[Op_Insert (0 :: nat) (0 :: nat) 1, Op_Release \<lparr>h_shard = 0, h_entry = 0\<rparr>,
       Op_Insert 1 1 1, Op_Release \<lparr>h_shard = 1, h_entry = 1\<rparr>,
       Op_Insert 2 2 1, Op_Release \<lparr>h_shard = 0, h_entry = 2\<rparr>,
       Op_Insert 3 3 1, Op_Release \<lparr>h_shard = 1, h_entry = 3\<rparr>]"
  let ?c = "run (\<lambda>k. k) (new_Cache LRU 100 2) ?ops"
  have z: "0 < (2 :: nat)" by simp
  have a: "sum_list (map (\<lambda>s. length (rl s)) (shards ?c)) = 4"
    by code_simp
  have b: "snd (Cache_Invalidate ?c
      \<lparr>validity_fn = (\<lambda>k v. even k), iteration_fn = (\<lambda>valid invalid. True)\<rparr>) = 2"
    by code_simp
  have c: "evicted (fst (Cache_Invalidate ?c
      \<lparr>validity_fn = (\<lambda>k v. even k), iteration_fn = (\<lambda>valid invalid. True)\<rparr>)) = [(1, 1), (3, 3)]"
    by code_simp
  have d: "snd (Cache_Invalidate ?c
      \<lparr>validity_fn = (\<lambda>k v. False), iteration_fn = (\<lambda>valid invalid. False)\<rparr>) = 0"
    by code_simp
  from Invalidate_semantics [OF z, of "\<lambda>k. k" LRU 100 ?ops default_ctl, unfolded Let_def]
  have "snd (Cache_Invalidate ?c default_ctl) = sum_list (map (\<lambda>s. length (rl s)) (shards ?c))"
    by (elim conjE)
  then have "snd (Cache_Invalidate ?c default_ctl) = 4"
    using a by (rule trans)
  with b c d show ?thesis by blast
qed

end
